theory Spec2Isabelle
  imports Main "HOL-Library.Sublist"
begin

section \<open>Python string primitives\<close>

text \<open>
  Python strings are sequences of code points. A text is modelled as a \<open>string\<close>, each
  \<open>char\<close> standing for one code point in the range 0..255; texts with code points beyond
  that range are outside the model. The character classes below are Python's, restricted
  to that range.
\<close>

definition isspace :: "char \<Rightarrow> bool" where
  \<comment> \<open>\<open>str.isspace\<close> on one character: what \<open>strip\<close>, \<open>lstrip\<close> and \<open>rstrip\<close> remove.\<close>
  "isspace c = (c \<in> set [CHR 0x09, CHR 0x0A, CHR 0x0B, CHR 0x0C, CHR 0x0D, CHR 0x1C,
                           CHR 0x1D, CHR 0x1E, CHR 0x1F, CHR 0x20, CHR 0x85, CHR 0xA0])"

definition lstrip :: "string \<Rightarrow> string" where
  "lstrip s = dropWhile isspace s"

definition rstrip :: "string \<Rightarrow> string" where
  "rstrip s = rev (dropWhile isspace (rev s))"

definition strip :: "string \<Rightarrow> string" where
  "strip s = lstrip (rstrip s)"

fun startswith :: "string \<Rightarrow> string \<Rightarrow> bool" where
  \<comment> \<open>\<open>s.startswith(p)\<close>\<close>
  "startswith s [] = True"
| "startswith [] (a # p) = False"
| "startswith (c # s) (a # p) = (if c = a then startswith s p else False)"

definition py_in :: "string \<Rightarrow> string \<Rightarrow> bool" where
  \<comment> \<open>\<open>p in s\<close>: \<open>p\<close> occurs in \<open>s\<close> as a contiguous substring.\<close>
  "py_in p s = sublist p s"

fun find_str :: "string \<Rightarrow> string \<Rightarrow> nat option" where
  \<comment> \<open>The lowest index at which \<open>p\<close> occurs in the text; \<open>s.index(p)\<close> raises where this is \<open>None\<close>.\<close>
  "find_str p [] = (if p = [] then Some 0 else None)"
| "find_str p (c # cs) =
     (if startswith (c # cs) p then Some 0 else map_option Suc (find_str p cs))"

function replace :: "string \<Rightarrow> string \<Rightarrow> string \<Rightarrow> string" where
  \<comment> \<open>\<open>s.replace(p, r)\<close>: every occurrence of \<open>p\<close>, leftmost first and without overlap;
      an empty \<open>p\<close> matches before every character and at the end.\<close>
  "replace p r [] = (if p = [] then r else [])"
| "replace p r (c # cs) =
     (if p = [] then r @ c # replace p r cs
      else if startswith (c # cs) p then r @ replace p r (drop (length p) (c # cs))
      else c # replace p r cs)"
  by pat_completeness auto
termination
  by (relation "measure (\<lambda>(p, r, s). length s)") (auto simp: Suc_le_eq)

fun join_str :: "string \<Rightarrow> string list \<Rightarrow> string" where
  \<comment> \<open>\<open>sep.join(xs)\<close>\<close>
  "join_str sep [] = []"
| "join_str sep [x] = x"
| "join_str sep (x # y # ys) = x @ sep @ join_str sep (y # ys)"

fun split_chr :: "char \<Rightarrow> string \<Rightarrow> string list" where
  \<comment> \<open>\<open>s.split(c)\<close> for a separator of one character: the empty text gives one empty field.\<close>
  "split_chr sep [] = [[]]"
| "split_chr sep (c # cs) =
     (if c = sep then [] # split_chr sep cs
      else (case split_chr sep cs of
              [] \<Rightarrow> [[c]]
            | f # fs \<Rightarrow> (c # f) # fs))"

section \<open>Reading text files\<close>

fun universal_newlines :: "string \<Rightarrow> string" where
  \<comment> \<open>Text mode reads \<open>\r\n\<close> and a lone \<open>\r\<close> as \<open>\n\<close>.\<close>
  "universal_newlines [] = []"
| "universal_newlines [c] = (if c = CHR 0x0D then [CHR 0x0A] else [c])"
| "universal_newlines (c # d # cs) =
     (if c = CHR 0x0D \<and> d = CHR 0x0A then CHR 0x0A # universal_newlines cs
      else if c = CHR 0x0D then CHR 0x0A # universal_newlines (d # cs)
      else c # universal_newlines (d # cs))"

fun readlines :: "string \<Rightarrow> string list" where
  \<comment> \<open>\<open>fp.readlines()\<close>: every line keeps its terminating newline; the last one may have none.\<close>
  "readlines [] = []"
| "readlines (c # cs) =
     (if c = CHR 0x0A then [c] # readlines cs
      else (case readlines cs of
              [] \<Rightarrow> [[c]]
            | l # ls \<Rightarrow> (c # l) # ls))"

datatype io_error = NotFound string | SameFileError string string

type_synonym filesystem = "(string \<times> string) list"

definition read_text :: "filesystem \<Rightarrow> string \<Rightarrow> io_error + string" where
  \<comment> \<open>\<open>open(path).read()\<close>: the file's text, or the exception for a path that holds no file.\<close>
  "read_text fs path =
     (case map_of fs path of
        None \<Rightarrow> Inl (NotFound path)
      | Some raw \<Rightarrow> Inr (universal_newlines raw))"

fun path_join2 :: "string \<Rightarrow> string \<Rightarrow> string" where
  \<comment> \<open>One step of \<open>os.path.join\<close> (POSIX): an absolute component discards what came before.\<close>
  "path_join2 path b =
     (if startswith b ''/'' then b
      else if path = [] \<or> last path = CHR ''/'' then path @ b
      else path @ ''/'' @ b)"

definition path_join :: "string \<Rightarrow> string list \<Rightarrow> string" where
  "path_join a ps = foldl path_join2 a ps"

section \<open>Requirement loader\<close>

fun requirements_loop :: "string \<Rightarrow> string list \<Rightarrow> string list \<Rightarrow> string list" where
  "requirements_loop comment_char reqs [] = reqs"
| "requirements_loop comment_char reqs (ln0 # lines) =
     (let ln = (case find_str comment_char ln0 of
                  Some i \<Rightarrow> strip (take i ln0)
                | None \<Rightarrow> ln0)
      in if startswith ln ''http'' then requirements_loop comment_char reqs lines
         else if startswith ln ''--extra-index-url'' then requirements_loop comment_char reqs lines
         else if ln \<noteq> [] then requirements_loop comment_char (reqs @ [ln]) lines
         else requirements_loop comment_char reqs lines)"

definition requirements_of_text :: "string \<Rightarrow> string \<Rightarrow> string list" where
  "requirements_of_text comment_char text =
     requirements_loop comment_char [] (map strip (readlines text))"

definition load_requirements :: "filesystem \<Rightarrow> string \<Rightarrow> string \<Rightarrow> string \<Rightarrow> io_error + string list" where
  "load_requirements fs path_dir file_name comment_char =
     (case read_text fs (path_join path_dir [file_name]) of
        Inl e \<Rightarrow> Inl e
      | Inr text \<Rightarrow> Inr (requirements_of_text comment_char text))"

text \<open>The requirement loader as the specification words it.\<close>

definition truncate_comment :: "string \<Rightarrow> string \<Rightarrow> string" where
  "truncate_comment comment_char ln =
     (case find_str comment_char ln of Some i \<Rightarrow> take i ln | None \<Rightarrow> ln)"

definition requirement_kept :: "string \<Rightarrow> bool" where
  "requirement_kept ln =
     (ln \<noteq> [] \<and> \<not> startswith ln ''http'' \<and> \<not> startswith ln ''--extra-index-url'')"

definition spec_requirements :: "string \<Rightarrow> string \<Rightarrow> string list" where
  "spec_requirements comment_char text =
     filter requirement_kept (map (\<lambda>ln. strip (truncate_comment comment_char ln)) (readlines text))"

definition req_fs :: filesystem where
  "req_fs = [(''proj/requirements.txt'',
      ''numpy>=1.17  # arrays'' @ [CHR 0x0D, CHR 0x0A] @ ''# only a comment'' @ [CHR 0x0A]
      @ ''--extra-index-url https://x.org/simple'' @ [CHR 0x0A] @ ''  '' @ [CHR 0x0A] @
      ''https://github.com/a/b.zip'' @ [CHR 0x0A] @ ''  torch  '')]"

section \<open>Description rewriter\<close>

definition ascii_lower :: "char \<Rightarrow> char" where
  "ascii_lower c =
     (case map_of (zip ''ABCDEFGHIJKLMNOPQRSTUVWXYZ'' ''abcdefghijklmnopqrstuvwxyz'') c of
        Some l \<Rightarrow> l
      | None \<Rightarrow> c)"

fun ci_prefix :: "string \<Rightarrow> string \<Rightarrow> bool" where
  \<comment> \<open>The literal \<open>p\<close> matches at the start of the text under \<open>re.IGNORECASE\<close>. The literals
      matched here hold ASCII letters only, which match their two ASCII cases and nothing
      else below code point 256.\<close>
  "ci_prefix [] s = True"
| "ci_prefix (a # p) [] = False"
| "ci_prefix (a # p) (c # s) = (if ascii_lower a = ascii_lower c then ci_prefix p s else False)"

definition skip_begin :: string where
  "skip_begin = ''<!-- following section will be skipped from PyPI description -->''"

definition skip_end :: string where
  "skip_end = ''<!-- end skipping PyPI description -->''"

fun search_end :: "string \<Rightarrow> string option" where
  \<comment> \<open>The text after the first match of \<open>skip_end\<close>, if there is one.\<close>
  "search_end [] = None"
| "search_end (c # cs) =
     (if ci_prefix skip_end (c # cs) then Some (drop (length skip_end) (c # cs))
      else search_end cs)"

fun lazy_end :: "string \<Rightarrow> string option" where
  \<comment> \<open>\<open>.+?\<close> followed by \<open>skip_end\<close>, under \<open>re.DOTALL\<close>: at least one character, of any
      kind, and then as few as possible up to a match of \<open>skip_end\<close>.\<close>
  "lazy_end [] = None"
| "lazy_end (c # cs) = search_end cs"

function re_sub_skip :: "string \<Rightarrow> string" where
  \<comment> \<open>\<open>re.sub(rf"{skip_begin}.+?{skip_end}", "<!--  -->", text, flags=re.IGNORECASE + re.DOTALL)\<close>:
      neither marker holds a character that is special in a regular expression, so the
      pattern is the first marker, one or more characters taken lazily, and the second
      marker. The scan replaces the leftmost match and resumes after it.\<close>
  "re_sub_skip [] = []"
| "re_sub_skip (c # cs) =
     (if ci_prefix skip_begin (c # cs) then
        (case lazy_end (drop (length skip_begin) (c # cs)) of
           Some rest \<Rightarrow> ''<!--  -->'' @ re_sub_skip rest
         | None \<Rightarrow> c # re_sub_skip cs)
      else c # re_sub_skip cs)"
  by pat_completeness auto
termination
proof (relation "measure length")
  fix c cs rest
  assume a: "lazy_end (drop (length skip_begin) (c # cs)) = Some rest"
  have se: "search_end s = Some r \<Longrightarrow> length r < length s" for s r
    by (induction s) (auto simp: skip_end_def split: if_splits)
  have "length rest < length (drop (length skip_begin) (c # cs))"
    using a se by (cases "drop (length skip_begin) (c # cs)") fastforce+
  then show "(rest, c # cs) \<in> measure length" by simp
qed simp_all

definition substitute_links :: "string \<Rightarrow> string \<Rightarrow> string \<Rightarrow> string" where
  \<comment> \<open>Lines 57 to 68: the five substitutions, in their order.\<close>
  "substitute_links homepage ver text0 =
     (let github_source_url = path_join homepage [''raw'', ver];
          text1 = replace ''docs/source/_static/''
                    (path_join github_source_url [''docs/source/_static/'']) text0;
          text2 = replace ''badge/?version=stable'' (''badge/?version='' @ ver) text1;
          text3 = replace ''lightning.readthedocs.io/en/stable/''
                    (''lightning.readthedocs.io/en/'' @ ver) text2;
          text4 = replace ''/branch/master/graph/badge.svg''
                    (''/release/'' @ ver @ ''/graph/badge.svg'') text3
      in replace ''badge.svg?branch=master&event=push'' (''badge.svg?tag='' @ ver) text4)"

definition rewrite_description :: "string \<Rightarrow> string \<Rightarrow> string \<Rightarrow> string" where
  \<comment> \<open>The body of \<open>_load_readme_description\<close> after the file is read: the substitutions,
      then the removal of the excluded section.\<close>
  "rewrite_description homepage ver text0 = re_sub_skip (substitute_links homepage ver text0)"

definition search_strings :: "string list" where
  \<comment> \<open>The five literals the rewriter looks for, in the order of its substitutions.\<close>
  "search_strings =
     [''docs/source/_static/'', ''badge/?version=stable'', ''lightning.readthedocs.io/en/stable/'',
      ''/branch/master/graph/badge.svg'', ''badge.svg?branch=master&event=push'']"

definition load_readme_description :: "filesystem \<Rightarrow> string \<Rightarrow> string \<Rightarrow> string \<Rightarrow> io_error + string" where
  "load_readme_description fs path_dir homepage ver =
     (case read_text fs (path_join path_dir [''README.md'']) of
        Inl e \<Rightarrow> Inl e
      | Inr text \<Rightarrow> Inr (rewrite_description homepage ver text))"


text \<open>Notions used to state what the removal of the excluded section does.\<close>

definition ci_eq :: "string \<Rightarrow> string \<Rightarrow> bool" where
  \<comment> \<open>The two texts are equal up to the case of ASCII letters.\<close>
  "ci_eq x y = (map ascii_lower x = map ascii_lower y)"

fun has_match :: "string \<Rightarrow> bool" where
  \<comment> \<open>Some position of the text starts a match of the whole pattern.\<close>
  "has_match [] = False"
| "has_match (c # cs) =
     (if ci_prefix skip_begin (c # cs) then
        (case lazy_end (drop (length skip_begin) (c # cs)) of
           Some rest \<Rightarrow> True
         | None \<Rightarrow> has_match cs)
      else has_match cs)"



definition no_overlap :: "string \<Rightarrow> string \<Rightarrow> bool" where
  \<comment> \<open>No occurrence of \<open>q\<close> can share a character with an occurrence of \<open>p\<close>: neither lies
      in the other, and no proper end of one is a start of the other.\<close>
  "no_overlap q p =
     (\<not> sublist q p \<and> \<not> sublist p q
      \<and> list_all (\<lambda>k. \<not> suffix (take k p) q) [1..<length p]
      \<and> list_all (\<lambda>k. \<not> prefix (drop k p) q) [1..<length p])"

definition version_fits :: "string \<Rightarrow> bool" where
  \<comment> \<open>What a substitution puts where the search string had something else is the version,
      \<open>release/<ver>/graph/badge.svg\<close> or \<open>tag=<ver>\<close>. The version fits when no
      occurrence of a search string that this substitution or an earlier one looks for can
      share a character with such a part.\<close>
  "version_fits ver =
     (list_all (\<lambda>q. no_overlap q ver)
        [''docs/source/_static/'', ''badge/?version=stable'', ''lightning.readthedocs.io/en/stable/'']
      \<and> list_all (\<lambda>q. no_overlap q (''release/'' @ ver @ ''/graph/badge.svg''))
        [''docs/source/_static/'', ''badge/?version=stable'', ''lightning.readthedocs.io/en/stable/'',
         ''/branch/master/graph/badge.svg'']
      \<and> list_all (\<lambda>q. no_overlap q (''tag='' @ ver)) search_strings)"

function kept_mask :: "string \<Rightarrow> bool list" where
  \<comment> \<open>For every character of the text, whether the removal of the excluded section keeps it:
      the characters of a replaced match are marked \<open>False\<close>.\<close>
  "kept_mask [] = []"
| "kept_mask (c # cs) =
     (if ci_prefix skip_begin (c # cs) then
        (case lazy_end (drop (length skip_begin) (c # cs)) of
           Some rest \<Rightarrow> replicate (length (c # cs) - length rest) False @ kept_mask rest
         | None \<Rightarrow> True # kept_mask cs)
      else True # kept_mask cs)"
  by pat_completeness auto
termination
proof (relation "measure length")
  fix c cs rest
  assume a: "lazy_end (drop (length skip_begin) (c # cs)) = Some rest"
  have se: "search_end s = Some r \<Longrightarrow> length r < length s" for s r
    by (induction s) (auto simp: skip_end_def split: if_splits)
  have "length rest < length (drop (length skip_begin) (c # cs))"
    using a se by (cases "drop (length skip_begin) (c # cs)") fastforce+
  then show "(rest, c # cs) \<in> measure length" by simp
qed simp_all

section \<open>Meta-package generator\<close>

subsection \<open>Lines\<close>

definition KEEP_FILES :: "string list" where
  "KEEP_FILES = [''_logger'', ''_root_logger'', ''_console'', ''formatter'', ''_PACKAGE_ROOT'',
                 ''_PROJECT_ROOT'']"

definition strip_comment :: "string \<Rightarrow> string" where
  \<comment> \<open>\<open>ln[: ln.index("#")] if "#" in ln else ln\<close>\<close>
  "strip_comment ln = (case find_str ''#'' ln of Some i \<Rightarrow> take i ln | None \<Rightarrow> ln)"

definition clean_line :: "string \<Rightarrow> string" where
  \<comment> \<open>What both loops do to a line before they look at it.\<close>
  "clean_line ln = rstrip (strip_comment ln)"

definition is_word :: "char \<Rightarrow> bool" where
  \<comment> \<open>The class \<open>\w\<close> of a \<open>str\<close> pattern: the alphanumeric code points and the underscore.\<close>
  "is_word c =
     (let n = (of_char c :: nat)
      in (48 \<le> n \<and> n \<le> 57) \<or> (65 \<le> n \<and> n \<le> 90) \<or> n = 95 \<or> (97 \<le> n \<and> n \<le> 122)
         \<or> n = 170 \<or> n = 178 \<or> n = 179 \<or> n = 181 \<or> n = 185 \<or> n = 186
         \<or> (188 \<le> n \<and> n \<le> 190) \<or> (192 \<le> n \<and> n \<le> 214) \<or> (216 \<le> n \<and> n \<le> 246)
         \<or> 248 \<le> n)"

definition is_name_char :: "char \<Rightarrow> bool" where
  \<comment> \<open>The class \<open>[\w+_]\<close>\<close>
  "is_name_char c = (is_word c \<or> c = CHR ''+'' \<or> c = CHR ''_'')"

definition match_var :: "string \<Rightarrow> string option" where
  \<comment> \<open>\<open>re.match(r"^([\w+_]+) =", ln)\<close> and its first group: the longest run of class
      characters at the start of the line, which has to be followed by a blank and an equals
      sign (a shorter run is followed by a class character, so backtracking finds nothing).\<close>
  "match_var ln =
     (let name = takeWhile is_name_char ln; rest = dropWhile is_name_char ln
      in if name \<noteq> [] \<and> startswith rest '' ='' then Some name else None)"

definition import_line :: "string \<Rightarrow> string \<Rightarrow> string" where
  \<comment> \<open>\<open>f"from {import_path} import {name}  # noqa: F401"\<close>\<close>
  "import_line import_path name = ''from '' @ import_path @ '' import '' @ name @ ''  # noqa: F401''"

definition indent_of :: "string \<Rightarrow> nat" where
  \<comment> \<open>\<open>len(ln) - len(ln.lstrip())\<close>\<close>
  "indent_of ln = length ln - length (lstrip ln)"

subsection \<open>Paths\<close>

definition basename :: "string \<Rightarrow> string" where
  \<comment> \<open>\<open>os.path.basename\<close>: what follows the last separator.\<close>
  "basename p = rev (takeWhile (\<lambda>c. c \<noteq> CHR ''/'') (rev p))"

definition dirname :: "string \<Rightarrow> string" where
  \<comment> \<open>\<open>os.path.dirname\<close>: what precedes the last separator, without trailing separators
      unless it consists of separators only.\<close>
  "dirname p =
     (let head = rev (dropWhile (\<lambda>c. c \<noteq> CHR ''/'') (rev p))
      in if head \<noteq> [] \<and> \<not> list_all (\<lambda>c. c = CHR ''/'') head
         then rev (dropWhile (\<lambda>c. c = CHR ''/'') (rev head))
         else head)"

definition entry_import_path :: "string \<Rightarrow> string \<Rightarrow> string" where
  \<comment> \<open>Lines 110 and 111: the package name and the directories of the relative path.\<close>
  "entry_import_path pkg_name local_path =
     (let dirs = filter (\<lambda>d. d \<noteq> []) (split_chr CHR ''/'' (dirname local_path))
      in join_str ''.'' (pkg_name # dirs))"

definition module_import_path :: "string \<Rightarrow> string \<Rightarrow> string" where
  \<comment> \<open>Line 137: the relative path with every \<open>.py\<close> removed and dots for separators.\<close>
  "module_import_path pkg_name local_path =
     pkg_name @ ''.'' @ replace ''/'' ''.'' (replace ''.py'' [] local_path)"

subsection \<open>Entry files\<close>

definition entry_step :: "string \<Rightarrow> string \<Rightarrow> string \<Rightarrow> string list \<Rightarrow> string \<Rightarrow> string list" where
  \<comment> \<open>One turn of the loop over the lines of \<open>__init__.py\<close> or \<open>__main__.py\<close>.\<close>
  "entry_step pkg_name new_pkg local_path body ln0 =
     (let ln = clean_line ln0
      in case match_var ln of
           Some name \<Rightarrow>
             if name \<notin> set KEEP_FILES then body
             else if startswith name ''__'' \<and> name \<noteq> ''__all__'' then body
             else body @ [import_line (entry_import_path pkg_name local_path) name]
         | None \<Rightarrow>
             if py_in ''import '' ln \<and> py_in ''-'' ln then body
             else if \<not> py_in ''__about__'' ln then body @ [replace pkg_name new_pkg ln]
             else body)"

definition entry_body :: "string \<Rightarrow> string \<Rightarrow> string \<Rightarrow> string list \<Rightarrow> string list" where
  "entry_body pkg_name new_pkg local_path lines =
     foldl (entry_step pkg_name new_pkg local_path) [] lines"

subsection \<open>Module files\<close>

definition defined_name :: "string \<Rightarrow> string" where
  \<comment> \<open>Lines 150, 154 and 155: the keywords removed, the text trimmed and cut at the first of
      \<open>(\<close>, \<open>)\<close> and \<open>:\<close>.\<close>
  "defined_name ln =
     (let name = strip (replace ''class '' [] (replace ''def '' [] ln));
          idx = map (\<lambda>s. case find_str [s] name of Some i \<Rightarrow> i | None \<Rightarrow> length name) ''():''
      in take (Min (set idx)) name)"

definition module_rest :: "string \<Rightarrow> string list \<times> nat \<Rightarrow> string \<Rightarrow> string list \<times> nat" where
  \<comment> \<open>Lines 137 to 160 on a cleaned line that the watermark lets through.\<close>
  "module_rest import_path st ln =
     (let body = fst st; skip_offset = snd st
      in if py_in ''-'' import_path then (body, skip_offset)
         else case (case match_var ln of
                      Some name \<Rightarrow> if name \<notin> set KEEP_FILES then None
                                   else Some (body @ [import_line import_path name])
                    | None \<Rightarrow> Some body) of
                None \<Rightarrow> (body, skip_offset)
              | Some body1 \<Rightarrow>
                  if py_in ''import '' ln \<and> py_in ''-'' ln then (body1, skip_offset)
                  else if startswith (lstrip ln) ''def'' \<or> startswith (lstrip ln) ''class'' then
                    (if py_in ''on_before_run'' (strip (replace ''class '' [] (replace ''def '' [] ln)))
                     then (body1, skip_offset)
                     else let name = defined_name ln
                          in if startswith name ''__'' \<or> py_in ''='' name then (body1, skip_offset)
                             else (body1 @ [import_line import_path name], indent_of ln + 4))
                  else (body1, skip_offset))"

definition module_step :: "string \<Rightarrow> string list \<times> nat \<Rightarrow> string \<Rightarrow> string list \<times> nat" where
  \<comment> \<open>One turn of the loop over the lines of a module file; the state is the body so far
      and the watermark \<open>skip_offset\<close>, inactive at 0.\<close>
  "module_step import_path st ln0 =
     (let body = fst st; skip_offset = snd st; ln = clean_line ln0
      in if skip_offset \<noteq> 0 \<and> ln \<noteq> [] then
           (let offset = indent_of ln
            in if offset \<ge> skip_offset then (body, skip_offset)
               else module_rest import_path (body, offset) ln)
         else module_rest import_path (body, skip_offset) ln)"

definition module_body :: "string \<Rightarrow> string list \<Rightarrow> string list" where
  "module_body import_path lines = fst (foldl (module_step import_path) ([], 0) lines)"


subsection \<open>Files\<close>

text \<open>
  The file system is a list of paths with their texts; a path is the string the program
  builds, so two spellings of one location are two paths here, and directories exist as
  soon as a file is written below them (\<open>os.makedirs\<close> with \<open>exist_ok\<close>).
\<close>

record meta_state =
  files :: filesystem
  log :: "string list"

fun fs_write :: "string \<Rightarrow> string \<Rightarrow> filesystem \<Rightarrow> filesystem" where
  "fs_write path content [] = [(path, content)]"
| "fs_write path content ((p, c) # fs) =
     (if p = path then (p, content) # fs else (p, c) # fs_write path content fs)"

definition read_lines :: "filesystem \<Rightarrow> string \<Rightarrow> io_error + string list" where
  \<comment> \<open>\<open>open(path).readlines()\<close>\<close>
  "read_lines fs path =
     (case map_of fs path of
        None \<Rightarrow> Inl (NotFound path)
      | Some raw \<Rightarrow> Inr (readlines (universal_newlines raw)))"

definition written_text :: "string list \<Rightarrow> string" where
  \<comment> \<open>\<open>fp.writelines([ln + os.linesep for ln in body])\<close>, the line separator being \<open>\n\<close>.\<close>
  "written_text body = concat (map (\<lambda>ln. ln @ [CHR 0x0A]) body)"

definition endswith :: "string \<Rightarrow> string \<Rightarrow> bool" where
  "endswith s p = startswith (rev s) (rev p)"

definition visible_py :: "string \<Rightarrow> bool" where
  \<comment> \<open>A file name that the pattern \<open>*.py\<close> matches: hidden names are left out.\<close>
  "visible_py name = (name \<noteq> [] \<and> hd name \<noteq> CHR ''.'' \<and> endswith name ''.py'')"

definition glob_py :: "string \<Rightarrow> filesystem \<Rightarrow> string list" where
  \<comment> \<open>\<open>glob.glob(os.path.join(dir, "*.py"))\<close>: the files directly in the directory.\<close>
  "glob_py dir fs =
     (let d = dirname (path_join dir [''*.py''])
      in filter (\<lambda>p. visible_py (basename p) \<and> path_join2 d (basename p) = p) (map fst fs))"

definition glob_py_recursive :: "string \<Rightarrow> filesystem \<Rightarrow> string list" where
  \<comment> \<open>\<open>glob.glob(os.path.join(dir, "**", "*.py"), recursive=True)\<close>: the files in the directory
      and below it, hidden directories left out. The model lists them in the order of the
      file list, where \<open>glob\<close> follows the order of the directories; and as the file
      system here holds files only, a directory named \<open>*.py\<close>, which \<open>glob\<close> would list
      and \<open>open\<close> would refuse, does not arise.\<close>
  "glob_py_recursive dir fs =
     (let d = dirname (path_join dir [''**'']); stem = path_join2 d []
      in filter (\<lambda>p. startswith p stem \<and>
                      (let parts = split_chr CHR ''/'' (drop (length stem) p)
                       in list_all (\<lambda>n. n \<noteq> [] \<and> hd n \<noteq> CHR ''.'') parts \<and> visible_py (last parts)))
           (map fst fs))"

definition entry_names :: "string list" where
  "entry_names = [''__init__.py'', ''__main__.py'']"

definition pkg_path :: "string \<Rightarrow> string" where
  \<comment> \<open>\<open>new_pkg.replace(".", os.path.sep)\<close>\<close>
  "pkg_path new_pkg = replace ''.'' ''/'' new_pkg"

definition top_pkg :: "string \<Rightarrow> string" where
  \<comment> \<open>\<open>new_pkg.split(".")[0]\<close>\<close>
  "top_pkg new_pkg = (case split_chr CHR ''.'' new_pkg of [] \<Rightarrow> [] | name # rest \<Rightarrow> name)"

definition copy_file :: "string \<Rightarrow> string \<Rightarrow> meta_state \<Rightarrow> io_error + meta_state" where
  \<comment> \<open>\<open>shutil.copy(src, dst)\<close> for a destination that names a file.\<close>
  "copy_file src dst st =
     (if src = dst then Inl (SameFileError src dst)
      else case map_of (files st) src of
             None \<Rightarrow> Inl (NotFound src)
           | Some raw \<Rightarrow> Inr (st\<lparr>files := fs_write dst raw (files st)\<rparr>))"

fun copy_loop :: "string \<Rightarrow> string \<Rightarrow> meta_state \<Rightarrow> string list \<Rightarrow> io_error + meta_state" where
  \<comment> \<open>Lines 168 to 172.\<close>
  "copy_loop folder new_pkg st [] = Inr st"
| "copy_loop folder new_pkg st (py_file # py_files) =
     (let fname = basename py_file
      in if fname \<notin> set entry_names then copy_loop folder new_pkg st py_files
         else case copy_file py_file (path_join folder [top_pkg new_pkg, fname]) st of
                Inl e \<Rightarrow> Inl e
              | Inr st' \<Rightarrow> copy_loop folder new_pkg st' py_files)"

definition copy_entry_files :: "string \<Rightarrow> string \<Rightarrow> meta_state \<Rightarrow> io_error + meta_state" where
  \<comment> \<open>Lines 167 to 172: the entry files of the destination package are copied one level up.\<close>
  "copy_entry_files folder new_pkg st =
     copy_loop folder new_pkg st (glob_py (path_join folder [pkg_path new_pkg]) (files st))"

datatype stub = Skipped | Unsupported | Stub "string list"

definition stub_of :: "string \<Rightarrow> string \<Rightarrow> meta_state \<Rightarrow> string \<Rightarrow> io_error + stub" where
  \<comment> \<open>Lines 90 to 160 for one source file: the file is passed over without a word, passed
      over with a warning, or turned into the lines of a stub.\<close>
  "stub_of package_dir new_pkg st py_file =
     (let pkg_name = basename package_dir;
          local_path = replace (package_dir @ ''/'') [] py_file;
          fname = basename py_file
      in if py_in ''-'' fname then Inr Skipped
         else if fname \<in> set entry_names then
           (case read_lines (files st) py_file of
              Inl e \<Rightarrow> Inl e
            | Inr lines \<Rightarrow> Inr (Stub (entry_body pkg_name new_pkg local_path lines)))
         else if startswith fname ''_'' \<and> fname \<notin> set [''__main__.py''] then Inr Unsupported
         else
           (case read_lines (files st) py_file of
              Inl e \<Rightarrow> Inl e
            | Inr lines \<Rightarrow>
                Inr (Stub (module_body (module_import_path pkg_name local_path) lines))))"

definition meta_file :: "string \<Rightarrow> string \<Rightarrow> string \<Rightarrow> meta_state \<Rightarrow> string \<Rightarrow> io_error + meta_state" where
  \<comment> \<open>One turn of the loop over the source files, lines 89 to 172.\<close>
  "meta_file package_dir folder new_pkg st py_file =
     (let local_path = replace (package_dir @ ''/'') [] py_file
      in case stub_of package_dir new_pkg st py_file of
           Inl e \<Rightarrow> Inl e
         | Inr Skipped \<Rightarrow> Inr st
         | Inr Unsupported \<Rightarrow> Inr (st\<lparr>log := log st @ [''unsupported file: '' @ local_path]\<rparr>)
         | Inr (Stub body) \<Rightarrow>
             (let new_file = path_join folder [pkg_path new_pkg, local_path]
              in copy_entry_files folder new_pkg
                   (st\<lparr>files := fs_write new_file (written_text body) (files st)\<rparr>)))"

fun meta_loop :: "string \<Rightarrow> string \<Rightarrow> string \<Rightarrow> meta_state \<Rightarrow> string list \<Rightarrow> io_error + meta_state" where
  "meta_loop package_dir folder new_pkg st [] = Inr st"
| "meta_loop package_dir folder new_pkg st (py_file # py_files) =
     (case meta_file package_dir folder new_pkg st py_file of
        Inl e \<Rightarrow> Inl e
      | Inr st' \<Rightarrow> meta_loop package_dir folder new_pkg st' py_files)"

definition create_meta_package :: "string \<Rightarrow> string \<Rightarrow> string \<Rightarrow> meta_state \<Rightarrow> io_error + meta_state" where
  "create_meta_package package_dir folder new_pkg st =
     meta_loop package_dir folder new_pkg st (glob_py_recursive package_dir (files st))"


subsection \<open>Example inputs\<close>

definition foo_lines :: "string list" where
  "foo_lines = [''import os'' @ [CHR 0x0A], ''def foo():  # a function'' @ [CHR 0x0A],
                ''    return 1'' @ [CHR 0x0A]]"

definition foo_text :: string where
  "foo_text = concat foo_lines"

definition example_fs :: filesystem where
  "example_fs =
     [(''/r/pkg/__init__.py'', ''_logger = logging.getLogger(__name__)'' @ [CHR 0x0A]),
      (''/r/pkg/mod.py'', foo_text),
      (''/r/pkg/my-dir/mod.py'', foo_text),
      (''/r/pkg/my-dir/_x.py'', foo_text),
      (''/r/pkg/_private.py'', foo_text),
      (''/r/pkg/_a-b.py'', foo_text),
      (''/r/pkg/utilities/__init__.py'', ''_logger = logging.getLogger(__name__)'' @ [CHR 0x0A])]"

definition example_state :: meta_state where
  "example_state = \<lparr>files = example_fs, log = []\<rparr>"


section \<open>Properties of the string primitives\<close>

lemma startswith_iff [simp]: "startswith s p \<longleftrightarrow> prefix p s"
  by (induction s p rule: startswith.induct) simp_all

section \<open>Properties of the requirement loader\<close>

lemma find_str_snoc_space:
  assumes "m \<noteq> []" "\<not> isspace (last m)" "isspace c"
  shows "find_str m (l @ [c]) = find_str m l"
proof (induction l)
  case Nil then show ?case using assms by (cases m) auto
next
  case (Cons a l)
  have "prefix m (a # l @ [c]) \<longleftrightarrow> prefix m (a # l)"
  proof
    assume "prefix m (a # l @ [c])"
    then have "prefix m ((a # l) @ [c])" by simp
    then have "prefix m (a # l) \<or> m = (a # l) @ [c]" unfolding prefix_snoc by auto 
    then show "prefix m (a # l)" using assms by auto
  next
    assume "prefix m (a # l)" then show "prefix m (a # l @ [c])"
      by (metis append_Cons prefix_prefix)
  qed
  then show ?case using Cons by simp
qed

lemma rstrip_snoc_space: "isspace c \<Longrightarrow> rstrip (l @ [c]) = rstrip l"
  by (simp add: rstrip_def)

lemma rstrip_snoc_nonspace: "\<not> isspace c \<Longrightarrow> rstrip (l @ [c]) = l @ [c]"
  by (simp add: rstrip_def)

lemma rstrip_Cons:
  "rstrip (c # x) = (if rstrip x = [] then (if isspace c then [] else [c]) else c # rstrip x)"
proof (induction x rule: rev_induct)
  case Nil show ?case by (simp add: rstrip_def)
next
  case (snoc a x)
  show ?case
  proof (cases "isspace a")
    case True
    then have "rstrip (c # x @ [a]) = rstrip (c # x)"
      using rstrip_snoc_space[of a "c # x"] by simp
    then show ?thesis using snoc True by (simp add: rstrip_snoc_space)
  next
    case False
    then have "rstrip (c # x @ [a]) = c # x @ [a]"
      using rstrip_snoc_nonspace[of a "c # x"] by simp
    then show ?thesis using False by (simp add: rstrip_snoc_nonspace)
  qed
qed

lemma strip_Cons_space: "isspace c \<Longrightarrow> strip (c # x) = strip x"
  by (simp add: strip_def rstrip_Cons lstrip_def)

lemma find_str_rstrip:
  assumes "m \<noteq> []" "\<not> isspace (last m)"
  shows "find_str m (rstrip l) = find_str m l"
proof (induction l rule: rev_induct)
  case Nil show ?case by (simp add: rstrip_def)
next
  case (snoc c l)
  show ?case
  proof (cases "isspace c")
    case True
    then show ?thesis using snoc assms by (simp add: rstrip_snoc_space find_str_snoc_space)
  next
    case False then show ?thesis by (simp add: rstrip_snoc_nonspace)
  qed
qed

lemma rstrip_take_rstrip: "rstrip (take i (rstrip l)) = rstrip (take i l)"
proof (induction l rule: rev_induct)
  case Nil show ?case by (simp add: rstrip_def)
next
  case (snoc c l)
  show ?case
  proof (cases "isspace c")
    case True
    show ?thesis
    proof (cases "i \<le> length l")
      case le: True
      then show ?thesis using snoc True by (simp add: rstrip_snoc_space)
    next
      case gt: False
      then have "take i (l @ [c]) = l @ [c]" by simp
      moreover have "take i l = l" using gt by simp
      ultimately show ?thesis using snoc True by (simp add: rstrip_snoc_space)
    qed
  next
    case False then show ?thesis by (simp add: rstrip_snoc_nonspace)
  qed
qed

lemma strip_take_rstrip: "strip (take i (rstrip l)) = strip (take i l)"
  by (simp add: strip_def rstrip_take_rstrip)

lemma find_str_lstrip:
  assumes "m \<noteq> []" "\<not> isspace (hd m)"
  shows "map_option (\<lambda>i. strip (take i (lstrip l))) (find_str m (lstrip l))
       = map_option (\<lambda>i. strip (take i l)) (find_str m l)"
proof (induction l)
  case Nil show ?case by (simp add: lstrip_def)
next
  case (Cons c cs)
  show ?case
  proof (cases "isspace c")
    case True
    then have np: "\<not> prefix m (c # cs)" using assms by (cases m) auto
    from True have "lstrip (c # cs) = lstrip cs" by (simp add: lstrip_def)
    then show ?thesis using Cons np True
      by (simp add: option.map_comp comp_def strip_Cons_space)
  next
    case False
    then show ?thesis by (simp add: lstrip_def)
  qed
qed

lemma clean_strip:
  assumes "m \<noteq> []" "\<not> isspace (hd m)" "\<not> isspace (last m)"
  shows "(case find_str m (strip l) of Some i \<Rightarrow> strip (take i (strip l)) | None \<Rightarrow> strip l)
       = strip (truncate_comment m l)"
proof -
  let ?r = "rstrip l"
  have a: "map_option (\<lambda>i. strip (take i (strip l))) (find_str m (strip l))
       = map_option (\<lambda>i. strip (take i ?r)) (find_str m ?r)"
    using find_str_lstrip[OF assms(1,2), of ?r] by (simp add: strip_def)
  have b: "find_str m ?r = find_str m l" by (rule find_str_rstrip[OF assms(1,3)])
  show ?thesis
  proof (cases "find_str m l")
    case None
    then have "find_str m (strip l) = None" using a b by simp
    then show ?thesis using None by (simp add: truncate_comment_def)
  next
    case (Some j)
    then obtain i where i: "find_str m (strip l) = Some i" using a b by auto
    then have "strip (take i (strip l)) = strip (take j ?r)" using a b Some by simp
    then show ?thesis using i Some by (simp add: truncate_comment_def strip_take_rstrip)
  qed
qed


lemma requirements_loop_filter:
  "requirements_loop m reqs lns =
     reqs @ filter requirement_kept
       (map (\<lambda>ln0. case find_str m ln0 of Some i \<Rightarrow> strip (take i ln0) | None \<Rightarrow> ln0) lns)"
  by (induction m reqs lns rule: requirements_loop.induct)
     (simp_all add: Let_def requirement_kept_def)

text \<open>
  C3. With a comment marker that neither starts nor ends with whitespace (the default \<open>#\<close>),
  the requirement loader returns, in file order, exactly the lines that are non-empty after
  truncation at the first comment marker and trimming, and that start neither with
  \<open>http\<close> nor with \<open>--extra-index-url\<close>; each is returned in its truncated and
  trimmed form.
\<close>

theorem load_requirements_spec:
  assumes "comment_char \<noteq> []" "\<not> isspace (hd comment_char)" "\<not> isspace (last comment_char)"
    and "read_text fs (path_join path_dir [file_name]) = Inr text"
  shows "load_requirements fs path_dir file_name comment_char = Inr (spec_requirements comment_char text)"
proof -
  have "(\<lambda>ln0. case find_str comment_char ln0 of Some i \<Rightarrow> strip (take i ln0) | None \<Rightarrow> ln0) \<circ> strip
      = (\<lambda>ln. strip (truncate_comment comment_char ln))"
    by (rule ext) (simp add: clean_strip[OF assms(1,2,3)])
  then have "requirements_of_text comment_char text = spec_requirements comment_char text"
    by (simp add: requirements_of_text_def spec_requirements_def requirements_loop_filter)
  then show ?thesis using assms(4) by (simp add: load_requirements_def)
qed

theorem load_requirements_spec_witness:
  "load_requirements req_fs ''proj'' ''requirements.txt'' ''#'' = Inr [''numpy>=1.17'', ''torch'']"
proof -
  have r: "read_text req_fs (path_join ''proj'' [''requirements.txt'']) = Inr (
      ''numpy>=1.17  # arrays'' @ [CHR 0x0A] @ ''# only a comment'' @ [CHR 0x0A]
      @ ''--extra-index-url https://x.org/simple'' @ [CHR 0x0A] @ ''  '' @ [CHR 0x0A] @
      ''https://github.com/a/b.zip'' @ [CHR 0x0A] @ ''  torch  '')"
    by (simp add: read_text_def req_fs_def path_join_def)
  have s: "\<not> isspace (hd ''#'')" "\<not> isspace (last ''#'')" by (simp_all add: isspace_def)
  show ?thesis
    unfolding load_requirements_spec[OF _ s r, simplified]
    by (simp add: spec_requirements_def truncate_comment_def requirement_kept_def strip_def
         lstrip_def rstrip_def isspace_def)
qed

section \<open>Properties of the description rewriter\<close>

lemma search_end_length: "search_end s = Some rest \<Longrightarrow> length rest < length s"
  by (induction s) (auto simp: skip_end_def split: if_splits)

lemma lazy_end_length: "lazy_end s = Some rest \<Longrightarrow> length rest < length s"
  by (cases s) (auto dest: search_end_length)

lemma ci_prefix_Cons_Cons [simp]:
  "ci_prefix (a # p) (c # s) \<longleftrightarrow> ascii_lower a = ascii_lower c \<and> ci_prefix p s"
  by simp

declare ci_prefix.simps(3) [simp del]

lemma ci_prefix_alt: "ci_prefix p s \<longleftrightarrow> prefix (map ascii_lower p) (map ascii_lower s)"
  by (induction p s rule: ci_prefix.induct) auto

lemma ci_prefix_iff: "ci_prefix p s \<longleftrightarrow> (\<exists>x rest. s = x @ rest \<and> ci_eq x p)"
proof
  assume "ci_prefix p s"
  then obtain zs where zs: "map ascii_lower s = map ascii_lower p @ zs"
    by (auto simp: ci_prefix_alt prefix_def)
  have "s = take (length p) s @ drop (length p) s" by simp
  moreover have "map ascii_lower (take (length p) s) = map ascii_lower p"
    using zs by (metis append_eq_conv_conj length_map take_map)
  ultimately show "\<exists>x rest. s = x @ rest \<and> ci_eq x p"
    unfolding ci_eq_def by blast
next
  assume "\<exists>x rest. s = x @ rest \<and> ci_eq x p"
  then show "ci_prefix p s" by (auto simp: ci_prefix_alt ci_eq_def)
qed

lemma ci_eq_length: "ci_eq x y \<Longrightarrow> length x = length y"
  unfolding ci_eq_def by (metis length_map)

lemma search_end_iff:
  "search_end s \<noteq> None \<longleftrightarrow> (\<exists>u y post. s = u @ y @ post \<and> ci_eq y skip_end)"
proof
  show "search_end s \<noteq> None \<Longrightarrow> \<exists>u y post. s = u @ y @ post \<and> ci_eq y skip_end"
  proof (induction s)
    case Nil then show ?case by simp
  next
    case (Cons c cs)
    show ?case
    proof (cases "ci_prefix skip_end (c # cs)")
      case True
      then obtain x rest where "c # cs = x @ rest" "ci_eq x skip_end"
        unfolding ci_prefix_iff by blast
      then have "c # cs = [] @ x @ rest \<and> ci_eq x skip_end" by simp
      then show ?thesis by blast
    next
      case False
      then have "search_end cs \<noteq> None" using Cons.prems by simp
      then obtain u y post where "cs = u @ y @ post" "ci_eq y skip_end"
        using Cons.IH by blast
      then have "c # cs = (c # u) @ y @ post \<and> ci_eq y skip_end" by simp
      then show ?thesis by blast
    qed
  qed
next
  assume "\<exists>u y post. s = u @ y @ post \<and> ci_eq y skip_end"
  then obtain u y post where s: "s = u @ y @ post" and y: "ci_eq y skip_end" by blast
  have ne: "y \<noteq> []" using ci_eq_length[OF y] by (auto simp: skip_end_def)
  have p: "ci_prefix skip_end (y @ post)" using y unfolding ci_prefix_iff by blast
  have "search_end (u @ y @ post) \<noteq> None"
  proof (induction u)
    case Nil
    then show ?case using p ne by (cases y) auto
  next
    case (Cons a u)
    then show ?case by simp
  qed
  then show "search_end s \<noteq> None" using s by simp
qed

lemma lazy_end_iff:
  "lazy_end s \<noteq> None \<longleftrightarrow> (\<exists>mid y post. s = mid @ y @ post \<and> mid \<noteq> [] \<and> ci_eq y skip_end)"
proof (cases s)
  case Nil then show ?thesis by simp
next
  case (Cons c cs)
  have "lazy_end s \<noteq> None \<longleftrightarrow> (\<exists>u y post. cs = u @ y @ post \<and> ci_eq y skip_end)"
    using Cons search_end_iff by simp
  also have "\<dots> \<longleftrightarrow> (\<exists>mid y post. s = mid @ y @ post \<and> mid \<noteq> [] \<and> ci_eq y skip_end)"
  proof
    assume "\<exists>u y post. cs = u @ y @ post \<and> ci_eq y skip_end"
    then obtain u y post where "cs = u @ y @ post" "ci_eq y skip_end" by blast
    then have "s = (c # u) @ y @ post \<and> c # u \<noteq> [] \<and> ci_eq y skip_end" using Cons by simp
    then show "\<exists>mid y post. s = mid @ y @ post \<and> mid \<noteq> [] \<and> ci_eq y skip_end" by blast
  next
    assume "\<exists>mid y post. s = mid @ y @ post \<and> mid \<noteq> [] \<and> ci_eq y skip_end"
    then obtain mid y post where m: "s = mid @ y @ post" "mid \<noteq> []" "ci_eq y skip_end" by blast
    then obtain u where "mid = c # u" using Cons by (cases mid) auto
    then have "cs = u @ y @ post" using m Cons by simp
    then show "\<exists>u y post. cs = u @ y @ post \<and> ci_eq y skip_end" using m by blast
  qed
  finally show ?thesis .
qed

lemma has_match_Cons [simp]:
  "has_match (c # cs) \<longleftrightarrow>
     (ci_prefix skip_begin (c # cs) \<and> lazy_end (drop (length skip_begin) (c # cs)) \<noteq> None)
     \<or> has_match cs"
  by (simp split: option.splits)

declare has_match.simps(2) [simp del]

lemma has_match_iff:
  "has_match t \<longleftrightarrow>
     (\<exists>pre x mid y post. t = pre @ x @ mid @ y @ post \<and> ci_eq x skip_begin \<and> mid \<noteq> []
        \<and> ci_eq y skip_end)"
  (is "_ \<longleftrightarrow> ?D t")
proof
  show "has_match t \<Longrightarrow> ?D t"
  proof (induction t)
    case Nil then show ?case by simp
  next
    case (Cons c cs)
    show ?case
    proof (cases "ci_prefix skip_begin (c # cs) \<and> lazy_end (drop (length skip_begin) (c # cs)) \<noteq> None")
      case True
      then obtain x rest where x: "c # cs = x @ rest" "ci_eq x skip_begin"
        unfolding ci_prefix_iff by blast
      then have "drop (length skip_begin) (c # cs) = rest"
        using ci_eq_length[OF x(2)] by simp
      then obtain mid y post where "rest = mid @ y @ post" "mid \<noteq> []" "ci_eq y skip_end"
        using True lazy_end_iff by metis
      then have "c # cs = [] @ x @ mid @ y @ post \<and> ci_eq x skip_begin \<and> mid \<noteq> [] \<and> ci_eq y skip_end"
        using x by simp
      then show ?thesis by blast
    next
      case False
      then have "has_match cs" using Cons.prems by auto
      then obtain pre x mid y post where
        "cs = pre @ x @ mid @ y @ post" "ci_eq x skip_begin" "mid \<noteq> []" "ci_eq y skip_end"
        using Cons.IH by blast
      then have "c # cs = (c # pre) @ x @ mid @ y @ post \<and> ci_eq x skip_begin \<and> mid \<noteq> [] \<and> ci_eq y skip_end"
        by simp
      then show ?thesis by blast
    qed
  qed
next
  assume "?D t"
  then obtain pre x mid y post where t: "t = pre @ x @ mid @ y @ post"
    and x: "ci_eq x skip_begin" and m: "mid \<noteq> []" and y: "ci_eq y skip_end" by blast
  have ne: "x \<noteq> []" using ci_eq_length[OF x] by (auto simp: skip_begin_def)
  have p: "ci_prefix skip_begin (x @ mid @ y @ post)" using x unfolding ci_prefix_iff by blast
  have d: "drop (length skip_begin) (x @ mid @ y @ post) = mid @ y @ post"
    using ci_eq_length[OF x] by simp
  have l: "lazy_end (mid @ y @ post) \<noteq> None" using m y unfolding lazy_end_iff by blast
  have "has_match (pre @ x @ mid @ y @ post)"
  proof (induction pre)
    case Nil
    obtain c cs where c: "x @ mid @ y @ post = c # cs" using ne by (cases x) auto
    then show ?case using p d l by simp 
  next
    case (Cons a pre)
    then show ?case by simp
  qed
  then show "has_match t" using t by simp
qed

lemma re_sub_skip_no_match: "\<not> has_match t \<Longrightarrow> re_sub_skip t = t"
  by (induction t rule: re_sub_skip.induct) (auto split: option.splits)

lemma re_sub_skip_length: "length (re_sub_skip t) \<le> length t"
proof (induction t rule: re_sub_skip.induct)
  case 1 show ?case by simp
next
  case (2 c cs)
  show ?case
  proof (cases "ci_prefix skip_begin (c # cs)")
    case False
    then show ?thesis using 2 by simp
  next
    case True
    show ?thesis
    proof (cases "lazy_end (drop (length skip_begin) (c # cs))")
      case None
      then show ?thesis using 2 True by simp
    next
      case (Some rest)
      then have "length rest < length (drop (length skip_begin) (c # cs))"
        by (rule lazy_end_length)
      then have "length rest + length skip_begin < length (c # cs)" by simp
      moreover have "length (re_sub_skip rest) \<le> length rest" using 2(2)[OF True Some] .
      ultimately show ?thesis using True Some by (simp add: skip_begin_def)
    qed
  qed
qed

lemma re_sub_skip_match_shorter: "has_match t \<Longrightarrow> length (re_sub_skip t) < length t"
proof (induction t rule: re_sub_skip.induct)
  case 1 then show ?case by simp
next
  case (2 c cs)
  show ?case
  proof (cases "ci_prefix skip_begin (c # cs)")
    case False
    then show ?thesis using 2 by simp
  next
    case True
    show ?thesis
    proof (cases "lazy_end (drop (length skip_begin) (c # cs))")
      case None
      then show ?thesis using 2 True by simp
    next
      case (Some rest)
      then have "length rest < length (drop (length skip_begin) (c # cs))"
        by (rule lazy_end_length)
      then have "length rest + length skip_begin < length (c # cs)" by simp
      moreover have "length (re_sub_skip rest) \<le> length rest" by (rule re_sub_skip_length)
      ultimately show ?thesis using True Some by (simp add: skip_begin_def)
    qed
  qed
qed

lemma re_sub_skip_fixed_iff: "re_sub_skip t = t \<longleftrightarrow> \<not> has_match t"
  using re_sub_skip_no_match re_sub_skip_match_shorter by (metis less_irrefl)



lemma search_end_suffix: "search_end s = Some rest \<Longrightarrow> suffix rest s"
proof (induction s)
  case Nil then show ?case by simp
next
  case (Cons c cs)
  then show ?case
    by (auto split: if_splits intro: suffix_ConsI simp: suffix_drop)
qed


lemma lazy_end_suffix:
  assumes "lazy_end s = Some rest"
  shows "suffix rest (tl s)"
  using assms by (cases s) (auto dest: search_end_suffix)

lemma replaced_suffix:
  assumes "lazy_end (drop (length skip_begin) (c # cs)) = Some rest"
  shows "suffix rest cs"
proof -
  have "suffix rest (tl (drop (length skip_begin) (c # cs)))"
    using assms by (rule lazy_end_suffix)
  then have "suffix rest (drop (length skip_begin) cs)"
    by (simp add: drop_Suc tl_drop skip_begin_def)
  then show ?thesis using suffix_drop suffix_order.trans by blast
qed









lemma replace_absent: "p \<noteq> [] \<Longrightarrow> \<not> sublist p t \<Longrightarrow> replace p r t = t"
proof (induction p r t rule: replace.induct)
  case (1 p r) then show ?case by simp
next
  case (2 p r c cs)
  have np: "\<not> prefix p (c # cs)" using 2(5) by auto
  have "\<not> sublist p cs" using 2(5) by (simp add: sublist_Cons_right)
  then show ?case using 2 np by simp
qed


subsection \<open>Occurrences under substitution\<close>

lemma sublist_separator:
  assumes "c \<notin> set q" "sublist q (A @ c # B)"
  shows "sublist q A \<or> sublist q B"
proof -
  have np: "\<not> prefix (x # xs) (c # B)" if "x # xs = q2" "set q2 \<subseteq> set q" for x xs q2
    using that assms(1) by auto
  from assms(2) consider "sublist q A" | "sublist q (c # B)"
    | xs1 xs2 where "q = xs1 @ xs2" "suffix xs1 A" "prefix xs2 (c # B)"
    unfolding sublist_append by blast
  then show ?thesis
  proof cases
    case 1 then show ?thesis by simp
  next
    case 2
    then have "prefix q (c # B) \<or> sublist q B" by (simp add: sublist_Cons_right)
    moreover have "prefix q (c # B) \<Longrightarrow> q = []" using assms(1) by (cases q) auto
    ultimately show ?thesis by auto
  next
    case 3
    have "xs2 = []" using 3(1,3) assms(1) by (cases xs2) auto
    then show ?thesis using 3 by auto
  qed
qed

lemma sublist_snoc_right: "sublist q (Y @ [z]) \<longleftrightarrow> suffix q (Y @ [z]) \<or> sublist q Y"
proof -
  have "sublist q (Y @ [z]) \<longleftrightarrow> sublist (rev q) (z # rev Y)"
    by (metis rev.simps(2) rev_rev_ident sublist_rev)
  also have "\<dots> \<longleftrightarrow> prefix (rev q) (z # rev Y) \<or> sublist (rev q) (rev Y)"
    by (rule sublist_Cons_right)
  also have "\<dots> \<longleftrightarrow> suffix q (Y @ [z]) \<or> sublist q Y"
    by (simp add: suffix_to_prefix)
  finally show ?thesis .
qed

lemma sublist_full_tail:
  assumes "length Z = length p" "Z \<noteq> p" "p \<noteq> []" "sublist p (Y @ Z)"
  shows "sublist p (Y @ butlast Z)"
proof -
  have "Z \<noteq> []" using assms(1,3) by auto
  then have z: "Z = butlast Z @ [last Z]" by simp
  then have "sublist p ((Y @ butlast Z) @ [last Z])" using assms(4) by simp
  then have "suffix p (Y @ Z) \<or> sublist p (Y @ butlast Z)"
    unfolding sublist_snoc_right using z by simp
  moreover have "\<not> suffix p (Y @ Z)"
  proof
    assume "suffix p (Y @ Z)"
    then obtain w where "Y @ Z = w @ p" by (auto simp: suffix_def)
    then have "Z = p" using assms(1) by (simp add: append_eq_append_conv)
    then show False using assms(2) by simp
  qed
  ultimately show ?thesis by simp
qed

lemma replace_present: "p \<noteq> [] \<Longrightarrow> sublist p t \<Longrightarrow> sublist r (replace p r t)"
proof (induction p r t rule: replace.induct)
  case (1 p r) then show ?case by simp
next
  case (2 p r c cs)
  show ?case
  proof (cases "prefix p (c # cs)")
    case True
    then show ?thesis using "2.prems" by simp
  next
    case False
    then have "sublist p cs" using "2.prems" by (simp add: sublist_Cons_right)
    then have "sublist r (replace p r cs)" using "2.IH"(3) "2.prems" False by simp
    then show ?thesis using False "2.prems" by (simp add: sublist_Cons_right)
  qed
qed

lemma replace_no_new:
  assumes conf: "\<And>L X. sublist q (L @ r @ X) \<Longrightarrow> sublist q (L @ a) \<or> sublist q X"
    and a: "prefix a p" and p: "p \<noteq> []"
  shows "sublist q (L @ replace p r t) \<Longrightarrow> sublist q (L @ t)"
proof (induction t arbitrary: L rule: length_induct)
  case (1 t)
  show ?case
  proof (cases t)
    case Nil
    then show ?thesis using 1(2) p by simp
  next
    case (Cons c cs)
    show ?thesis
    proof (cases "prefix p (c # cs)")
      case True
      then obtain rest where r: "c # cs = p @ rest" by (auto simp: prefix_def)
      then have d: "drop (length p) (c # cs) = rest" by (metis append_eq_conv_conj)
      have lr: "length rest < length t" using r Cons p by (metis add_diff_cancel_left' d diff_less length_drop length_greater_0_conv zero_less_Suc length_Cons less_add_same_cancel2 length_append)
      have "sublist q (L @ r @ replace p r rest)" using 1(2) Cons True p d by simp
      then consider "sublist q (L @ a)" | "sublist q (replace p r rest)" using conf by blast
      then show ?thesis
      proof cases
        case 1
        obtain a' where "p = a @ a'" using a by (auto simp: prefix_def)
        then have "L @ t = (L @ a) @ a' @ rest" using r Cons by simp
        then show ?thesis using 1 by (metis sublist_append)
      next
        case 2
        then have "sublist q ([] @ replace p r rest)" by simp
        then have "sublist q ([] @ rest)" using 1(1) lr by blast
        then have "sublist q rest" by simp
        moreover have "L @ t = (L @ p) @ rest" using r Cons by simp
        ultimately show ?thesis by (metis sublist_append)
      qed
    next
      case False
      have "sublist q ((L @ [c]) @ replace p r cs)" using 1(2) Cons False p by simp
      then have "sublist q ((L @ [c]) @ cs)"
        using 1(1)[rule_format, of cs "L @ [c]"] Cons by simp
      then show ?thesis using Cons by simp
    qed
  qed
qed

lemma replace_eliminates_aux:
  assumes conf: "\<And>L X. sublist p (L @ r @ X) \<Longrightarrow> sublist p (L @ a) \<or> sublist p X"
    and a: "strict_prefix a p"
  shows "sublist p (L @ replace p r t)
         \<Longrightarrow> \<exists>W. prefix W t \<and> length W < length p \<and> sublist p (L @ W)"
proof (induction t arbitrary: L rule: length_induct)
  case (1 t)
  have p: "p \<noteq> []" using a by auto
  show ?case
  proof (cases t)
    case Nil
    then have "sublist p (L @ [])" using 1(2) p by simp
    then show ?thesis using p by (intro exI[of _ "[]"]) simp
  next
    case (Cons c cs)
    show ?thesis
    proof (cases "prefix p (c # cs)")
      case True
      then obtain rest where r: "c # cs = p @ rest" by (auto simp: prefix_def)
      then have d: "drop (length p) (c # cs) = rest" by (metis append_eq_conv_conj)
      have lr: "length rest < length t" using r Cons p
        by (metis length_append length_greater_0_conv less_add_same_cancel2)
      have "sublist p (L @ r @ replace p r rest)" using 1(2) Cons True p d by simp
      then consider "sublist p (L @ a)" | "sublist p (replace p r rest)" using conf by blast
      then show ?thesis
      proof cases
        case 1
        have "prefix a t" using a True Cons by (metis prefix_order.trans prefix_order.less_le)
        moreover have "length a < length p" using a
          by (metis prefix_length_less)
        ultimately show ?thesis using 1 by blast
      next
        case 2
        then have "sublist p ([] @ replace p r rest)" by simp
        then obtain W where "length W < length p" "sublist p ([] @ W)" using 1(1) lr by blast
        then show ?thesis using sublist_length_le by fastforce
      qed
    next
      case False
      have "sublist p ((L @ [c]) @ replace p r cs)" using 1(2) Cons False p by simp
      then obtain W where W: "prefix W cs" "length W < length p" "sublist p ((L @ [c]) @ W)"
        using 1(1) Cons by (metis length_Cons lessI)
      show ?thesis
      proof (cases "length (c # W) < length p")
        case True
        then show ?thesis using W Cons by (intro exI[of _ "c # W"]) simp
      next
        case f: False
        then have len: "length (c # W) = length p" using W(2) by simp
        have ne: "c # W \<noteq> p" using False W(1) by auto
        have "sublist p (L @ butlast (c # W))"
          using sublist_full_tail[OF len ne p] W(3) by simp
        moreover have "prefix (butlast (c # W)) t" using W(1) Cons
          by (metis prefix_Cons prefix_order.trans prefixeq_butlast)
        moreover have "length (butlast (c # W)) < length p" using len p by (simp del: butlast.simps)
        ultimately show ?thesis by blast
      qed
    qed
  qed
qed

lemma replace_eliminates:
  assumes "\<And>L X. sublist p (L @ r @ X) \<Longrightarrow> sublist p (L @ a) \<or> sublist p X"
    and "strict_prefix a p"
  shows "\<not> sublist p (replace p r t)"
proof
  assume "sublist p (replace p r t)"
  then have "sublist p ([] @ replace p r t)" by simp
  then obtain W where "length W < length p" "sublist p ([] @ W)"
    using replace_eliminates_aux[OF assms] by blast
  then show False using sublist_length_le by fastforce
qed

lemma append_eq_cases:
  assumes "a @ b = c @ d"
  obtains u where "a = c @ u" "u @ b = d" | u where "a @ u = c" "b = u @ d"
  using assms unfolding append_eq_append_conv2 by blast

lemma disjoint_no_overlap:
  assumes "set p \<inter> set q = {}" "p \<noteq> []" "q \<noteq> []"
  shows "no_overlap q p"
proof -
  have a: "\<not> sublist q p" using assms set_mono_sublist[of q p] by (cases q) auto
  have b: "\<not> sublist p q" using assms set_mono_sublist[of p q] by (cases p) auto
  have c: "\<not> suffix (take k p) q" if "1 \<le> k" for k
  proof
    assume "suffix (take k p) q"
    then have "set (take k p) \<subseteq> set q" by (auto simp: suffix_def)
    moreover have "hd p \<in> set (take k p)" using that assms(2) by (cases p; cases k) auto
    moreover have "hd p \<in> set p" using assms(2) by simp
    ultimately show False using assms(1) by blast
  qed
  have d: "\<not> prefix (drop k p) q" if "k < length p" for k
  proof
    assume "prefix (drop k p) q"
    then have "set (drop k p) \<subseteq> set q" by (auto simp: prefix_def)
    moreover have "last p \<in> set (drop k p)" using that assms(2)
      by (metis drop_eq_Nil last_drop last_in_set not_le)
    moreover have "last p \<in> set p" using assms(2) by simp
    ultimately show False using assms(1) by blast
  qed
  show ?thesis unfolding no_overlap_def list_all_iff using a b c d by auto
qed

lemma no_overlap_confined:
  assumes n: "no_overlap q p" and s: "sublist q (L @ p @ X)"
  shows "sublist q L \<or> sublist q X"
proof -
  have nqp: "\<not> sublist q p" and npq: "\<not> sublist p q"
    and ns: "\<And>k. 1 \<le> k \<Longrightarrow> k < length p \<Longrightarrow> \<not> suffix (take k p) q"
    and np: "\<And>k. 1 \<le> k \<Longrightarrow> k < length p \<Longrightarrow> \<not> prefix (drop k p) q"
    using n by (auto simp: no_overlap_def list_all_iff)
  from s obtain ps ss where e: "L @ p @ X = ps @ q @ ss" by (auto simp: sublist_def)
  then consider us where "L = ps @ us" "us @ p @ X = q @ ss"
    | us where "L @ us = ps" "p @ X = us @ q @ ss"
    by (rule append_eq_cases)
  then show ?thesis
  proof cases
    case 1
    from 1(2) consider vs where "us = q @ vs" | vs where "us @ vs = q" "p @ X = vs @ ss"
      by (rule append_eq_cases)
    then show ?thesis
    proof cases
      case 1
      then show ?thesis using \<open>L = ps @ us\<close> by (auto simp: sublist_def)
    next
      case 2
      from 2(2) consider ws where "p = vs @ ws" | ws where "p @ ws = vs"
        by (rule append_eq_cases)
      then show ?thesis
      proof cases
        case a: 1
        show ?thesis
        proof (cases "vs = []")
          case True
          then have "L = ps @ q" using 2(1) \<open>L = ps @ us\<close> by simp
          then show ?thesis by (metis sublist_append_leftI)
        next
          case False
          show ?thesis
          proof (cases "ws = []")
            case True
            then have "suffix p q" using a 2(1) by (auto simp: suffix_def)
            then show ?thesis using npq by auto
          next
            case w: False
            have "take (length vs) p = vs" using a by simp
            moreover have "1 \<le> length vs" "length vs < length p" using False w a by (auto simp: Suc_le_eq)
            moreover have "suffix vs q" using 2(1) by (auto simp: suffix_def)
            ultimately show ?thesis using ns by metis
          qed
        qed
      next
        case b: 2
        then have "q = us @ p @ ws" using 2(1) by simp
        then show ?thesis using npq by (auto simp: sublist_def)
      qed
    qed
  next
    case 2
    from 2(2) consider vs where "p = us @ vs" "vs @ X = q @ ss" | vs where "X = vs @ q @ ss"
      by (rule append_eq_cases)
    then show ?thesis
    proof cases
      case a: 1
      from a(2) consider ws where "vs = q @ ws" | ws where "vs @ ws = q" "X = ws @ ss"
        by (rule append_eq_cases)
      then show ?thesis
      proof cases
        case 1
        then have "p = us @ q @ ws" using a(1) by simp
        then show ?thesis using nqp by (auto simp: sublist_def)
      next
        case c: 2
        show ?thesis
        proof (cases "vs = []")
          case True
          then have "X = q @ ss" using c by simp
          then show ?thesis by (metis sublist_append_rightI)
        next
          case False
          show ?thesis
          proof (cases "us = []")
            case True
            then have "prefix p q" using a(1) c(1) by (auto simp: prefix_def)
            then show ?thesis using npq by auto
          next
            case u: False
            have "drop (length us) p = vs" using a(1) by simp
            moreover have "1 \<le> length us" "length us < length p" using False u a(1) by (auto simp: Suc_le_eq)
            moreover have "prefix vs q" using c(1) by (auto simp: prefix_def)
            ultimately show ?thesis using np by metis
          qed
        qed
      qed
    next
      case 2
      then show ?thesis by (auto simp: sublist_def)
    qed
  qed
qed

lemma replace_keeps:
  assumes n: "no_overlap q p"
  shows "sublist q (L @ t) \<Longrightarrow> sublist q (L @ replace p r t)"
proof (induction t arbitrary: L rule: length_induct)
  case (1 t)
  have p: "p \<noteq> []" using n by (auto simp: no_overlap_def)
  show ?case
  proof (cases t)
    case Nil
    then show ?thesis using 1(2) p by simp
  next
    case (Cons c cs)
    show ?thesis
    proof (cases "prefix p (c # cs)")
      case True
      then obtain rest where r: "c # cs = p @ rest" by (auto simp: prefix_def)
      then have d: "drop (length p) (c # cs) = rest" by (metis append_eq_conv_conj)
      have lr: "length rest < length t" using r Cons p
        by (metis length_append length_greater_0_conv less_add_same_cancel2)
      have eq: "replace p r t = r @ replace p r rest" using Cons True p d by simp
      have "sublist q (L @ p @ rest)" using 1(2) r Cons by simp
      then consider "sublist q L" | "sublist q rest" using no_overlap_confined[OF n] by blast
      then show ?thesis
      proof cases
        case 1
        then show ?thesis by (metis sublist_append)
      next
        case 2
        then have "sublist q ([] @ replace p r rest)"
          using 1(1)[rule_format, of rest "[]"] lr by simp
        then show ?thesis unfolding eq by (metis append_Nil sublist_append)
      qed
    next
      case False
      have "sublist q ((L @ [c]) @ cs)" using 1(2) Cons by simp
      then have "sublist q ((L @ [c]) @ replace p r cs)"
        using 1(1)[rule_format, of cs "L @ [c]"] Cons by simp
      then show ?thesis using Cons False p by simp
    qed
  qed
qed

lemma re_sub_skip_no_new:
  assumes "list_all (\<lambda>c. c \<notin> set q) ''<!--  -->''" "q \<noteq> []"
  shows "sublist q (L @ re_sub_skip t) \<Longrightarrow> sublist q (L @ t)"
proof (induction t arbitrary: L rule: length_induct)
  case (1 t)
  show ?case
  proof (cases t)
    case Nil then show ?thesis using 1(2) by simp
  next
    case (Cons c cs)
    let ?repl = "ci_prefix skip_begin (c # cs) \<and> lazy_end (drop (length skip_begin) (c # cs)) \<noteq> None"
    show ?thesis
    proof (cases ?repl)
      case True
      then obtain rest where rest: "lazy_end (drop (length skip_begin) (c # cs)) = Some rest" by blast
      have eq: "re_sub_skip t = ''<!--  -->'' @ re_sub_skip rest" using True rest Cons by simp
      have suf: "suffix rest cs" by (rule replaced_suffix[OF rest])
      then have lr: "length rest < length t" using Cons by (simp add: suffix_length_le le_imp_less_Suc)
      have nq: "no_overlap q ''<!--  -->''"
        using assms by (intro disjoint_no_overlap) (auto simp: list_all_iff)
      have "sublist q (L @ ''<!--  -->'' @ re_sub_skip rest)" using 1(2) eq by simp
      then consider "sublist q L" | "sublist q (re_sub_skip rest)"
        using no_overlap_confined[OF nq] by blast
      then show ?thesis
      proof cases
        case 1 then show ?thesis by (metis sublist_append)
      next
        case 2
        then have "sublist q ([] @ rest)" using 1(1)[rule_format, of rest "[]"] lr by simp
        then have "sublist q cs" using suf by (metis append_Nil sublist_order.order.trans suffix_imp_sublist)
        then show ?thesis using Cons by (metis sublist_Cons_right sublist_append)
      qed
    next
      case False
      then have eq: "re_sub_skip t = c # re_sub_skip cs" using Cons by (auto split: option.splits)
      have "sublist q ((L @ [c]) @ re_sub_skip cs)" using 1(2) eq by simp
      then have "sublist q ((L @ [c]) @ cs)" using 1(1)[rule_format, of cs "L @ [c]"] Cons by simp
      then show ?thesis using Cons by simp
    qed
  qed
qed

subsection \<open>Substitutions that put a version into the text\<close>

lemma confined_in_replacement:
  assumes "no_overlap q d" "sublist q (L @ (a @ d) @ X)"
  shows "sublist q (L @ a) \<or> sublist q X"
proof -
  have "sublist q ((L @ a) @ d @ X)" using assms(2) by simp
  then show ?thesis by (rule no_overlap_confined[OF assms(1)])
qed

lemma replace_stays_absent:
  assumes "\<And>L X. sublist q (L @ r @ X) \<Longrightarrow> sublist q (L @ a) \<or> sublist q X"
    and "prefix a p" and "p \<noteq> []" and "\<not> sublist q t"
  shows "\<not> sublist q (replace p r t)"
  using replace_no_new[OF assms(1-3), where L="[]" and t=t] assms(4) by auto




lemma version_fits_examples:
  "version_fits ''1.2.3''" "version_fits ''1.8.0b1''" "version_fits ''1.8.0.dev0''"
  "version_fits ''v1.7.0rc1''" "\<not> version_fits ''1b''" "\<not> version_fits []"
  by code_simp+



subsection \<open>What the removal of the excluded section keeps\<close>

lemma kept_mask_length: "length (kept_mask t) = length t"
proof (induction t rule: kept_mask.induct)
  case 1 show ?case by simp
next
  case (2 c cs)
  show ?case
  proof (cases "ci_prefix skip_begin (c # cs)")
    case False then show ?thesis using 2 by simp
  next
    case True
    show ?thesis
    proof (cases "lazy_end (drop (length skip_begin) (c # cs))")
      case None then show ?thesis using 2 True by simp
    next
      case (Some rest)
      have "suffix rest cs" by (rule replaced_suffix[OF Some])
      then have "length rest \<le> length cs" by (rule suffix_length_le)
      then show ?thesis using 2(2)[OF True Some] True Some by simp
    qed
  qed
qed

lemma kept_prefix:
  "list_all (\<lambda>k. k) (take n (kept_mask t)) \<Longrightarrow> take n (re_sub_skip t) = take n t"
proof (induction t arbitrary: n rule: kept_mask.induct)
  case 1 show ?case by simp
next
  case (2 c cs)
  let ?repl = "ci_prefix skip_begin (c # cs) \<and> lazy_end (drop (length skip_begin) (c # cs)) \<noteq> None"
  show ?case
  proof (cases ?repl)
    case True
    then obtain rest where rest: "lazy_end (drop (length skip_begin) (c # cs)) = Some rest" by blast
    have "suffix rest cs" by (rule replaced_suffix[OF rest])
    then have "length rest \<le> length cs" by (rule suffix_length_le)
    then obtain m where m: "length (c # cs) - length rest = Suc m"
      by (metis Suc_diff_le length_Cons)
    have "kept_mask (c # cs) = False # (replicate m False @ kept_mask rest)"
      using True rest m by simp
    then have "n = 0" using "2.prems" by (cases n) auto
    then show ?thesis by simp
  next
    case False
    then have k: "kept_mask (c # cs) = True # kept_mask cs"
      and r: "re_sub_skip (c # cs) = c # re_sub_skip cs"
      by (auto split: option.splits)
    have ih: "list_all (\<lambda>k. k) (take n' (kept_mask cs)) \<Longrightarrow> take n' (re_sub_skip cs) = take n' cs" for n'
      using "2.IH"(1) "2.IH"(3) False by (cases "ci_prefix skip_begin (c # cs)") auto
    show ?thesis
    proof (cases n)
      case 0 then show ?thesis by simp
    next
      case (Suc n')
      then show ?thesis using "2.prems" k r ih[of n'] by simp
    qed
  qed
qed

lemma kept_occurrence:
  assumes q: "q \<noteq> []"
  shows "t = A @ q @ B \<Longrightarrow> list_all (\<lambda>k. k) (take (length q) (drop (length A) (kept_mask t)))
         \<Longrightarrow> sublist q (re_sub_skip t)"
proof (induction t arbitrary: A rule: length_induct)
  case (1 t)
  show ?case
  proof (cases A)
    case Nil
    then have "take (length q) (re_sub_skip t) = take (length q) t"
      using 1(3) by (intro kept_prefix) simp
    then have "take (length q) (re_sub_skip t) = q" using 1(2) Nil by simp
    then have "prefix q (re_sub_skip t)" by (metis take_is_prefix)
    then show ?thesis by (rule prefix_imp_sublist)
  next
    case (Cons a A')
    then obtain cs where t: "t = a # cs" "cs = A' @ q @ B" using 1(2) by simp
    let ?repl = "ci_prefix skip_begin (a # cs) \<and> lazy_end (drop (length skip_begin) (a # cs)) \<noteq> None"
    show ?thesis
    proof (cases ?repl)
      case True
      then obtain rest where rest: "lazy_end (drop (length skip_begin) (a # cs)) = Some rest" by blast
      have suf: "suffix rest cs" by (rule replaced_suffix[OF rest])
      then have le: "length rest \<le> length cs" by (rule suffix_length_le)
      define m where "m = length (a # cs) - length rest"
      have km: "kept_mask t = replicate m False @ kept_mask rest"
        using True rest t(1) m_def by simp
      have rt: "re_sub_skip t = ''<!--  -->'' @ re_sub_skip rest" using True rest t(1) by simp
      have mt: "rest = drop m t" using suf t(1) m_def le
        by (metis suffix_ConsI suffix_def append_eq_conv_conj diff_diff_cancel length_append
              add_diff_cancel_right' length_drop)
      have mA: "m \<le> length A"
      proof (rule ccontr)
        assume "\<not> m \<le> length A"
        then have lt: "length A < m" by simp
        have "drop (length A) (kept_mask t) = replicate (m - length A) False @ kept_mask rest"
          using km lt by simp
        moreover obtain j where "m - length A = Suc j" using lt by (metis Suc_diff_Suc)
        ultimately have "take (length q) (drop (length A) (kept_mask t))
            = False # take (length q - 1) (replicate j False @ kept_mask rest)"
          using q by (cases q) simp_all
        then show False using 1(3) by simp
      qed
      have rA: "rest = drop m A @ q @ B" using mt 1(2) mA by simp
      have "drop (length A) (kept_mask t) = drop (length A - m) (kept_mask rest)"
        using km mA by simp
      then have "list_all (\<lambda>k. k) (take (length q) (drop (length (drop m A)) (kept_mask rest)))"
        using 1(3) by simp
      moreover have "length rest < length t" using le t(1) by simp
      ultimately have "sublist q (re_sub_skip rest)"
        using 1(1)[rule_format, of rest "drop m A"] rA by blast
      then show ?thesis unfolding rt by (metis sublist_append)
    next
      case False
      then have k: "kept_mask t = True # kept_mask cs"
        and r: "re_sub_skip t = a # re_sub_skip cs"
        using t(1) by (auto split: option.splits)
      have "drop (length A) (kept_mask t) = drop (length A') (kept_mask cs)"
        using k Cons by simp
      then have "list_all (\<lambda>k. k) (take (length q) (drop (length A') (kept_mask cs)))"
        using 1(3) by simp
      moreover have "length cs < length t" using t(1) by simp
      ultimately have "sublist q (re_sub_skip cs)"
        using 1(1)[rule_format, of cs A'] t(2) by blast
      then show ?thesis unfolding r by (simp add: sublist_Cons_right)
    qed
  qed
qed

lemma kept_mask_all: "list_all (\<lambda>k. k) (kept_mask t) \<longleftrightarrow> \<not> has_match t"
proof (induction t rule: kept_mask.induct)
  case 1 show ?case by simp
next
  case (2 c cs)
  let ?repl = "ci_prefix skip_begin (c # cs) \<and> lazy_end (drop (length skip_begin) (c # cs)) \<noteq> None"
  show ?case
  proof (cases ?repl)
    case True
    then obtain rest where rest: "lazy_end (drop (length skip_begin) (c # cs)) = Some rest" by blast
    have "suffix rest cs" by (rule replaced_suffix[OF rest])
    then have "length rest \<le> length cs" by (rule suffix_length_le)
    then obtain m where m: "length (c # cs) - length rest = Suc m"
      by (metis Suc_diff_le length_Cons)
    have "kept_mask (c # cs) = False # (replicate m False @ kept_mask rest)"
      using True rest m by simp
    then show ?thesis using True by simp
  next
    case False
    then have k: "kept_mask (c # cs) = True # kept_mask cs"
      by (auto split: option.splits)
    have ih: "list_all (\<lambda>k. k) (kept_mask cs) \<longleftrightarrow> \<not> has_match cs"
      using "2.IH"(1) "2.IH"(3) False by (cases "ci_prefix skip_begin (c # cs)") auto
    show ?thesis using k ih False by simp
  qed
qed

text \<open>
  C9, as stated, fails in its clause on adjacent markers: when a further end marker follows
  them, the section from the begin marker up to that end marker is replaced.
\<close>

theorem re_sub_skip_adjacent_counterexample:
  "re_sub_skip (skip_begin @ skip_end @ ''x'' @ skip_end @ ''y'') = ''<!--  -->y''
   \<and> re_sub_skip (skip_begin @ skip_end @ ''x'' @ skip_end @ ''y'')
       \<noteq> skip_begin @ skip_end @ ''x'' @ skip_end @ ''y''"
  by code_simp

text \<open>
  C9, amended. The removal of the PyPI-excluded section changes the text exactly when some
  match of the begin marker is followed, after at least one character, by a match of the
  end marker (both compared without regard to case); every other text is returned as it
  is, markers included.
\<close>

theorem re_sub_skip_changes_iff:
  "re_sub_skip t \<noteq> t \<longleftrightarrow>
     (\<exists>pre x mid y post. t = pre @ x @ mid @ y @ post \<and> ci_eq x skip_begin \<and> mid \<noteq> []
        \<and> ci_eq y skip_end)"
  unfolding has_match_iff[symmetric] by (simp add: re_sub_skip_fixed_iff)

theorem re_sub_skip_changes_iff_witness:
  "re_sub_skip (skip_begin @ ''x'' @ skip_end) \<noteq> skip_begin @ ''x'' @ skip_end"
proof -
  have "skip_begin @ ''x'' @ skip_end = [] @ skip_begin @ ''x'' @ skip_end @ []
      \<and> ci_eq skip_begin skip_begin \<and> ''x'' \<noteq> [] \<and> ci_eq skip_end skip_end"
    by (simp add: ci_eq_def)
  then show ?thesis unfolding re_sub_skip_changes_iff by blast
qed

lemma re_sub_skip_adjacent: "re_sub_skip (skip_begin @ skip_end) = skip_begin @ skip_end"
proof -
  have "\<not> has_match (skip_begin @ skip_end)" by code_simp
  then show ?thesis by (rule re_sub_skip_no_match)
qed

lemma re_sub_skip_begin_only: "re_sub_skip (skip_begin @ '' text'') = skip_begin @ '' text''"
proof -
  have "\<not> has_match (skip_begin @ '' text'')" by code_simp
  then show ?thesis by (rule re_sub_skip_no_match)
qed

lemma re_sub_skip_section:
  "re_sub_skip (''a'' @ skip_begin @ ''x'' @ skip_end @ ''b'') = ''a<!--  -->b''"
  by code_simp




lemma badge_overlaps:
  "no_overlap ''badge/?version=stable'' ''docs/source/_static/''"
  "no_overlap ''badge/?version=stable'' ''1.2.3''"
  "no_overlap ''badge/?version=stable'' ''release/1.2.3/graph/badge.svg''"
  "no_overlap ''badge/?version=stable'' ''tag=1.2.3''"
  "no_overlap ''badge/?version=1.2.3'' ''lightning.readthedocs.io/en/stable/''"
  "no_overlap ''badge/?version=1.2.3'' ''/branch/master/graph/badge.svg''"
  "no_overlap ''badge/?version=1.2.3'' ''badge.svg?branch=master&event=push''"
  by code_simp+

lemma badge_absent_after_links:
  "\<not> sublist ''badge/?version=stable'' (substitute_links homepage ''1.2.3'' text)"
proof -
  let ?q = "''badge/?version=stable''"
  define text1 where "text1 = replace ''docs/source/_static/''
      (path_join (path_join homepage [''raw'', ''1.2.3'']) [''docs/source/_static/'']) text"
  define text2 where "text2 = replace ?q ''badge/?version=1.2.3'' text1"
  define text3 where "text3 = replace ''lightning.readthedocs.io/en/stable/''
      ''lightning.readthedocs.io/en/1.2.3'' text2"
  define text4 where "text4 = replace ''/branch/master/graph/badge.svg''
      ''/release/1.2.3/graph/badge.svg'' text3"
  define text5 where "text5 = replace ''badge.svg?branch=master&event=push''
      ''badge.svg?tag=1.2.3'' text4"
  have s: "substitute_links homepage ''1.2.3'' text = text5"
    by (simp add: substitute_links_def Let_def text1_def text2_def text3_def text4_def text5_def)
  have c2: "sublist ?q (L @ ''badge/?version=1.2.3'' @ X) \<Longrightarrow>
            sublist ?q (L @ ''badge/?version='') \<or> sublist ?q X" for L X
    using confined_in_replacement[OF badge_overlaps(2), of L "''badge/?version=''" X] by simp
  have c3: "sublist ?q (L @ ''lightning.readthedocs.io/en/1.2.3'' @ X) \<Longrightarrow>
            sublist ?q (L @ ''lightning.readthedocs.io/en/'') \<or> sublist ?q X" for L X
    using confined_in_replacement[OF badge_overlaps(2), of L "''lightning.readthedocs.io/en/''" X]
    by simp
  have c4: "sublist ?q (L @ ''/release/1.2.3/graph/badge.svg'' @ X) \<Longrightarrow>
            sublist ?q (L @ ''/'') \<or> sublist ?q X" for L X
    using confined_in_replacement[OF badge_overlaps(3), of L "''/''" X] by simp
  have c5: "sublist ?q (L @ ''badge.svg?tag=1.2.3'' @ X) \<Longrightarrow>
            sublist ?q (L @ ''badge.svg?'') \<or> sublist ?q X" for L X
    using confined_in_replacement[OF badge_overlaps(4), of L "''badge.svg?''" X] by simp
  have n2: "\<not> sublist ?q text2"
    unfolding text2_def
  proof (rule replace_eliminates)
    show "strict_prefix ''badge/?version='' ?q"
      by (rule prefix_order.le_neq_trans) simp_all
    show "sublist ?q (L @ ''badge/?version=1.2.3'' @ X) \<Longrightarrow>
          sublist ?q (L @ ''badge/?version='') \<or> sublist ?q X" for L X
      by (rule c2)
  qed
  have n3: "\<not> sublist ?q text3"
    unfolding text3_def by (rule replace_stays_absent[OF c3 _ _ n2]) simp_all
  have n4: "\<not> sublist ?q text4"
    unfolding text4_def by (rule replace_stays_absent[OF c4 _ _ n3]) simp_all
  have n5: "\<not> sublist ?q text5"
    unfolding text5_def by (rule replace_stays_absent[OF c5 _ _ n4]) simp_all
  show ?thesis unfolding s by (rule n5)
qed

lemma badge_present_after_links:
  assumes "sublist ''badge/?version=stable'' text"
  shows "sublist ''badge/?version=1.2.3'' (substitute_links homepage ''1.2.3'' text)"
proof -
  let ?q = "''badge/?version=stable''" and ?r = "''badge/?version=1.2.3''"
  define text1 where "text1 = replace ''docs/source/_static/''
      (path_join (path_join homepage [''raw'', ''1.2.3'']) [''docs/source/_static/'']) text"
  define text2 where "text2 = replace ?q ?r text1"
  define text3 where "text3 = replace ''lightning.readthedocs.io/en/stable/''
      ''lightning.readthedocs.io/en/1.2.3'' text2"
  define text4 where "text4 = replace ''/branch/master/graph/badge.svg''
      ''/release/1.2.3/graph/badge.svg'' text3"
  define text5 where "text5 = replace ''badge.svg?branch=master&event=push''
      ''badge.svg?tag=1.2.3'' text4"
  have s: "substitute_links homepage ''1.2.3'' text = text5"
    by (simp add: substitute_links_def Let_def text1_def text2_def text3_def text4_def text5_def)
  have "sublist ?q text1"
    using replace_keeps[OF badge_overlaps(1), where L="[]" and t="text"] assms unfolding text1_def by simp
  then have "sublist ?r text2" unfolding text2_def by (intro replace_present) simp_all
  then have "sublist ?r text3"
    using replace_keeps[OF badge_overlaps(5), where L="[]" and t=text2] unfolding text3_def by simp
  then have "sublist ?r text4"
    using replace_keeps[OF badge_overlaps(6), where L="[]" and t=text3] unfolding text4_def by simp
  then have "sublist ?r text5"
    using replace_keeps[OF badge_overlaps(7), where L="[]" and t=text4] unfolding text5_def by simp
  then show ?thesis unfolding s .
qed

text \<open>
  C4, as stated, fails in both halves: only \<open>version=stable\<close> after \<open>badge/?\<close> is
  rewritten, so another occurrence of it stays in the output; and a badge inside an
  excluded section is removed together with the section.
\<close>

theorem badge_rewritten_counterexample:
  "py_in ''badge/?version=stable'' ''[d](https://x.io/?version=stable) [b](https://x.io/badge/?version=stable)''
   \<and> py_in ''version=stable'' (rewrite_description ''https://x.org/pl'' ''1.2.3''
         ''[d](https://x.io/?version=stable) [b](https://x.io/badge/?version=stable)'')
   \<and> py_in ''badge/?version=stable'' (skip_begin @ ''[b](https://x.io/badge/?version=stable)'' @ skip_end)
   \<and> \<not> py_in ''badge/?version=1.2.3'' (rewrite_description ''https://x.org/pl'' ''1.2.3''
         (skip_begin @ ''[b](https://x.io/badge/?version=stable)'' @ skip_end))"
  by code_simp

text \<open>
  C4, amended. For every text that contains \<open>badge/?version=stable\<close> and every homepage,
  the rewrite with version \<open>1.2.3\<close> gives an output without any occurrence of
  \<open>badge/?version=stable\<close>; the text after the five substitutions contains
  \<open>badge/?version=1.2.3\<close>, and the output contains it whenever one of its occurrences
  in that text has no character inside a section that the removal replaces.
\<close>

theorem badge_rewritten:
  assumes "py_in ''badge/?version=stable'' text"
  shows "py_in ''badge/?version=1.2.3'' (substitute_links homepage ''1.2.3'' text)
       \<and> \<not> py_in ''badge/?version=stable'' (rewrite_description homepage ''1.2.3'' text)
       \<and> (\<forall>A B. substitute_links homepage ''1.2.3'' text = A @ ''badge/?version=1.2.3'' @ B
                 \<and> list_all (\<lambda>k. k) (take (length ''badge/?version=1.2.3'')
                       (drop (length A) (kept_mask (substitute_links homepage ''1.2.3'' text))))
              \<longrightarrow> py_in ''badge/?version=1.2.3'' (rewrite_description homepage ''1.2.3'' text))"
proof (intro conjI allI impI)
  show "py_in ''badge/?version=1.2.3'' (substitute_links homepage ''1.2.3'' text)"
    using badge_present_after_links assms by (simp add: py_in_def)
  show "\<not> py_in ''badge/?version=stable'' (rewrite_description homepage ''1.2.3'' text)"
  proof
    assume "py_in ''badge/?version=stable'' (rewrite_description homepage ''1.2.3'' text)"
    then have "sublist ''badge/?version=stable'' ([] @ re_sub_skip (substitute_links homepage ''1.2.3'' text))"
      by (simp add: py_in_def rewrite_description_def)
    then have "sublist ''badge/?version=stable'' ([] @ substitute_links homepage ''1.2.3'' text)"
      by (rule re_sub_skip_no_new[rotated 2]) simp_all
    then show False using badge_absent_after_links by simp
  qed
  fix A B
  assume h: "substitute_links homepage ''1.2.3'' text = A @ ''badge/?version=1.2.3'' @ B
     \<and> list_all (\<lambda>k. k) (take (length ''badge/?version=1.2.3'')
           (drop (length A) (kept_mask (substitute_links homepage ''1.2.3'' text))))"
  from h have e: "substitute_links homepage ''1.2.3'' text = A @ ''badge/?version=1.2.3'' @ B"
    and k: "list_all (\<lambda>k. k) (take (length ''badge/?version=1.2.3'')
           (drop (length A) (kept_mask (substitute_links homepage ''1.2.3'' text))))"
    by blast+
  have "sublist ''badge/?version=1.2.3'' (re_sub_skip (substitute_links homepage ''1.2.3'' text))"
    by (rule kept_occurrence[OF _ e k]) simp
  then show "py_in ''badge/?version=1.2.3'' (rewrite_description homepage ''1.2.3'' text)"
    by (simp add: py_in_def rewrite_description_def)
qed

theorem badge_rewritten_witness:
  "py_in ''badge/?version=1.2.3'' (rewrite_description ''https://x.org/pl'' ''1.2.3''
        (''[b](https://x.io/badge/?version=stable) '' @ skip_begin @ ''x'' @ skip_end))
   \<and> \<not> py_in ''badge/?version=stable'' (rewrite_description ''https://x.org/pl'' ''1.2.3''
        (''[b](https://x.io/badge/?version=stable) '' @ skip_begin @ ''x'' @ skip_end))"
proof -
  let ?t = "''[b](https://x.io/badge/?version=stable) '' @ skip_begin @ ''x'' @ skip_end"
  have 1: "py_in ''badge/?version=stable'' ?t" by code_simp
  have 2: "substitute_links ''https://x.org/pl'' ''1.2.3'' ?t
         = ''[b](https://x.io/'' @ ''badge/?version=1.2.3'' @ ('') '' @ skip_begin @ ''x'' @ skip_end)"
    by code_simp
  have 3: "list_all (\<lambda>k. k) (take (length ''badge/?version=1.2.3'')
             (drop (length ''[b](https://x.io/'')
                (kept_mask (substitute_links ''https://x.org/pl'' ''1.2.3'' ?t))))"
    by code_simp
  show ?thesis using badge_rewritten[OF 1, of "''https://x.org/pl''"] 2 3 by blast
qed

section \<open>Properties of the meta-package generator\<close>

lemma module_rest_lines:
  "set (fst (module_rest ip st ln)) \<subseteq> set (fst st) \<union> range (import_line ip)"
  by (auto simp: module_rest_def Let_def split: option.splits if_splits)

lemma module_step_lines:
  "set (fst (module_step ip st ln0)) \<subseteq> set (fst st) \<union> range (import_line ip)"
  using module_rest_lines[of ip "(fst st, indent_of (clean_line ln0))" "clean_line ln0"]
        module_rest_lines[of ip "(fst st, snd st)" "clean_line ln0"]
  by (auto simp: module_step_def Let_def)

lemma module_fold_lines:
  "set (fst (foldl (module_step ip) st lns)) \<subseteq> set (fst st) \<union> range (import_line ip)"
proof (induction lns arbitrary: st)
  case Nil show ?case by simp
next
  case (Cons ln lns)
  show ?case using Cons[of "module_step ip st ln"] module_step_lines[of ip st ln] by auto
qed

lemma module_body_lines: "set (module_body ip lns) \<subseteq> range (import_line ip)"
  using module_fold_lines[of ip "([], 0)" lns] by (simp add: module_body_def)

lemma import_line_hd: "import_line ip name \<noteq> [] \<and> \<not> isspace (hd (import_line ip name))"
  by (simp add: import_line_def isspace_def)

text \<open>
  C8. Every line of the stub of a module file is a generated statement
  \<open>from <dotted path> import <name>  # noqa: F401\<close>; such a line starts with no
  whitespace, so no indented line of a function or class body is among them.
\<close>

theorem module_body_only_imports:
  "\<forall>l \<in> set (module_body import_path lines).
      (\<exists>name. l = import_line import_path name) \<and> l \<noteq> [] \<and> \<not> isspace (hd l)"
proof
  fix l assume "l \<in> set (module_body import_path lines)"
  then obtain name where n: "l = import_line import_path name"
    using module_body_lines[of import_path lines] by auto
  then show "(\<exists>name. l = import_line import_path name) \<and> l \<noteq> [] \<and> \<not> isspace (hd l)"
    using import_line_hd[of import_path name] by auto
qed

lemma module_rest_grows: "set (fst st) \<subseteq> set (fst (module_rest ip st ln))"
  by (auto simp: module_rest_def Let_def split: option.splits if_splits)

lemma module_step_grows: "set (fst st) \<subseteq> set (fst (module_step ip st ln0))"
  using module_rest_grows[of "(fst st, indent_of (clean_line ln0))" ip "clean_line ln0"]
        module_rest_grows[of "(fst st, snd st)" ip "clean_line ln0"]
  by (auto simp: module_step_def Let_def)

lemma module_fold_grows: "set (fst st) \<subseteq> set (fst (foldl (module_step ip) st lns))"
proof (induction lns arbitrary: st)
  case Nil show ?case by simp
next
  case (Cons ln lns)
  show ?case using Cons[of "module_step ip st ln"] module_step_grows[of st ip ln] by auto
qed

lemma def_foo_facts:
  "match_var ''def foo():'' = None"
  "\<not> py_in ''import '' ''def foo():''"
  "startswith (lstrip ''def foo():'') ''def''"
  "\<not> py_in ''on_before_run'' (strip (replace ''class '' [] (replace ''def '' [] ''def foo():'')))"
  "defined_name ''def foo():'' = ''foo''"
  "indent_of ''def foo():'' = 0"
  "\<not> py_in ''='' ''foo''"
  "\<not> startswith ''foo'' ''__''"
  by code_simp+

lemma module_rest_def_foo:
  assumes "\<not> py_in ''-'' ip"
  shows "module_rest ip (body, so) ''def foo():'' = (body @ [import_line ip ''foo''], 4)"
  unfolding module_rest_def Let_def using assms def_foo_facts
  by (simp del: startswith_iff add: py_in_def)

lemma module_step_def_foo:
  assumes "\<not> py_in ''-'' ip" "clean_line ln0 = ''def foo():''"
  shows "import_line ip ''foo'' \<in> set (fst (module_step ip st ln0))"
proof -
  have "module_step ip st ln0 = module_rest ip (fst st, snd st) ''def foo():''
      \<or> module_step ip st ln0 = module_rest ip (fst st, 0) ''def foo():''"
    using assms(2) def_foo_facts(6) by (auto simp: module_step_def Let_def)
  then show ?thesis using module_rest_def_foo[OF assms(1)] by (cases st) auto
qed

lemma module_fold_def_foo:
  assumes "\<not> py_in ''-'' ip" "ln0 \<in> set lns" "clean_line ln0 = ''def foo():''"
  shows "import_line ip ''foo'' \<in> set (fst (foldl (module_step ip) st lns))"
  using assms(2)
proof (induction lns arbitrary: st)
  case Nil then show ?case by simp
next
  case (Cons ln lns)
  show ?case
  proof (cases "ln = ln0")
    case True
    then have "import_line ip ''foo'' \<in> set (fst (module_step ip st ln))"
      using module_step_def_foo[OF assms(1,3)] by simp
    then show ?thesis using module_fold_grows[of "module_step ip st ln" ip lns] by auto
  next
    case False
    then have "ln0 \<in> set lns" using Cons.prems by simp
    then show ?thesis using Cons.IH by simp
  qed
qed

lemma rstrip_prefix: "prefix (rstrip x) x"
proof -
  have "suffix (dropWhile isspace (rev x)) (rev x)" by (rule suffix_dropWhile)
  then show ?thesis unfolding rstrip_def by (metis rev_rev_ident suffix_to_prefix)
qed

lemma clean_line_prefix: "prefix (clean_line l) l"
proof -
  have "prefix (strip_comment l) l"
    by (auto simp: strip_comment_def take_is_prefix split: option.splits)
  then show ?thesis unfolding clean_line_def using rstrip_prefix prefix_order.trans by blast
qed

lemma clean_line_hd: "clean_line l \<noteq> [] \<Longrightarrow> hd (clean_line l) = hd l"
  using clean_line_prefix[of l] by (cases "clean_line l") (auto simp: prefix_def)

lemma module_body_def_foo_lines:
  assumes "\<not> py_in ''-'' import_path" "ln0 \<in> set lines" "clean_line ln0 = ''def foo():''"
  shows "import_line import_path ''foo'' \<in> set (module_body import_path lines)
       \<and> (\<forall>l \<in> set lines. l \<noteq> [] \<and> isspace (hd l) \<longrightarrow>
             l \<notin> set (module_body import_path lines)
             \<and> clean_line l \<notin> set (module_body import_path lines))"
proof
  show "import_line import_path ''foo'' \<in> set (module_body import_path lines)"
    unfolding module_body_def by (rule module_fold_def_foo[OF assms])
next
  have b: "b \<noteq> [] \<and> \<not> isspace (hd b)" if h: "b \<in> set (module_body import_path lines)" for b
  proof -
    obtain name where "b = import_line import_path name"
      using h module_body_lines[of import_path lines] by auto
    then show ?thesis using import_line_hd[of import_path name] by simp
  qed
  show "\<forall>l \<in> set lines. l \<noteq> [] \<and> isspace (hd l) \<longrightarrow>
             l \<notin> set (module_body import_path lines)
             \<and> clean_line l \<notin> set (module_body import_path lines)"
  proof (intro ballI impI conjI)
    fix l assume "l \<in> set lines" "l \<noteq> [] \<and> isspace (hd l)"
    then show "l \<notin> set (module_body import_path lines)" using b by blast
    show "clean_line l \<notin> set (module_body import_path lines)"
    proof
      assume "clean_line l \<in> set (module_body import_path lines)"
      then have "clean_line l \<noteq> [] \<and> \<not> isspace (hd (clean_line l))" by (rule b)
      then show False using clean_line_hd \<open>l \<noteq> [] \<and> isspace (hd l)\<close> by metis
    qed
  qed
qed

theorem module_body_only_imports_witness:
  "''from pkg.mod import foo  # noqa: F401'' \<in> set (module_body ''pkg.mod'' foo_lines)
   \<and> (\<exists>name. ''from pkg.mod import foo  # noqa: F401'' = import_line ''pkg.mod'' name)"
proof -
  have m: "''from pkg.mod import foo  # noqa: F401'' \<in> set (module_body ''pkg.mod'' foo_lines)"
    by code_simp
  then show ?thesis using module_body_only_imports[of "''pkg.mod''" foo_lines] by blast
qed

text \<open>
  C2, as stated, fails at the boundary: a line indented exactly at the watermark is skipped,
  where normal processing would have emitted an import line for it.
\<close>

theorem module_step_at_watermark_counterexample:
  "indent_of (clean_line ''    def bar():'') = 4
   \<and> module_step ''pkg.mod'' ([], 4) ''    def bar():'' = ([], 4)
   \<and> module_rest ''pkg.mod'' ([], 4) (clean_line ''    def bar():'')
       = ([''from pkg.mod import bar  # noqa: F401''], 8)"
  by code_simp

text \<open>
  C2, amended. While the watermark is active, a non-blank line whose indentation is at
  least the watermark is skipped (the state stays as it is), and a non-blank line whose
  indentation is less than the watermark sets the watermark to its own indentation and is
  then processed normally; the watermark is thereby switched off only when that
  indentation is 0.
\<close>

theorem module_step_watermark:
  assumes "skip_offset \<noteq> 0" "clean_line ln0 \<noteq> []"
  shows "module_step import_path (body, skip_offset) ln0 =
           (if skip_offset \<le> indent_of (clean_line ln0) then (body, skip_offset)
            else module_rest import_path (body, indent_of (clean_line ln0)) (clean_line ln0))"
  using assms by (simp add: module_step_def Let_def)

theorem module_step_watermark_witness:
  "module_step ''pkg.mod'' ([], 4) ''        return 1'' = ([], 4)
   \<and> module_step ''pkg.mod'' ([], 4) ''  def bar():''
       = module_rest ''pkg.mod'' ([], 2) ''  def bar():''"
proof -
  have a: "(4::nat) \<noteq> 0" by simp
  have b: "clean_line ''        return 1'' \<noteq> []" "clean_line ''  def bar():'' \<noteq> []" by code_simp+
  have c: "indent_of (clean_line ''        return 1'') = 8" "indent_of (clean_line ''  def bar():'') = 2"
    "clean_line ''  def bar():'' = ''  def bar():''"
    by code_simp+
  show ?thesis
    using module_step_watermark[OF a b(1), of "''pkg.mod''" "[]"]
          module_step_watermark[OF a b(2), of "''pkg.mod''" "[]"] c by simp
qed

lemma keep_not_dunder: "name \<in> set KEEP_FILES \<Longrightarrow> \<not> prefix ''__'' name"
  by (auto simp: KEEP_FILES_def)

text \<open>
  C6, as stated, fails: the import line of an entry file names the package of the
  directory, not the dotted form of the file's relative path.
\<close>

theorem entry_step_keep_counterexample:
  "entry_step ''lightning_app'' ''lightning.app'' ''utilities/__init__.py'' []
       (''_logger = logging.getLogger(__name__)'' @ [CHR 0x0A])
     = [''from lightning_app.utilities import _logger  # noqa: F401'']
   \<and> module_import_path ''lightning_app'' ''utilities/__init__.py''
     = ''lightning_app.utilities.__init__''
   \<and> entry_step ''lightning_app'' ''lightning.app'' ''utilities/__init__.py'' []
       (''_logger = logging.getLogger(__name__)'' @ [CHR 0x0A])
     \<noteq> [import_line (module_import_path ''lightning_app'' ''utilities/__init__.py'') ''_logger'']
   \<and> entry_step ''lightning_app'' ''lightning.app'' ''utilities/__init__.py'' []
       (''_logger = logging.getLogger(__name__)'' @ [CHR 0x0A])
     \<noteq> [import_line (replace ''/'' ''.'' (replace ''.py'' [] ''utilities/__init__.py'')) ''_logger'']"
  by code_simp

text \<open>
  C6, amended. In an entry file, a line whose cleaned form starts with a keep-list name
  followed by a blank and an equals sign is replaced by the statement that imports the name
  from the package name joined by dots with the non-empty directory names of the file's
  relative path; the file name is no part of it.
\<close>

theorem entry_step_keep:
  assumes "match_var (clean_line ln0) = Some name" "name \<in> set KEEP_FILES"
  shows "entry_step pkg_name new_pkg local_path body ln0 =
           body @ [''from '' @ join_str ''.'' (pkg_name # filter (\<lambda>d. d \<noteq> [])
                                      (split_chr CHR ''/'' (dirname local_path)))
                   @ '' import '' @ name @ ''  # noqa: F401'']"
  using assms keep_not_dunder[OF assms(2)]
  by (simp add: entry_step_def Let_def import_line_def entry_import_path_def)

theorem entry_step_keep_witness:
  "entry_step ''lightning_app'' ''lightning.app'' ''utilities/sub/__init__.py'' []
       (''_logger = logging.getLogger(__name__)'' @ [CHR 0x0A])
     = [''from lightning_app.utilities.sub import _logger  # noqa: F401'']"
proof -
  have 1: "match_var (clean_line (''_logger = logging.getLogger(__name__)'' @ [CHR 0x0A])) = Some ''_logger''"
    by code_simp
  have 2: "''_logger'' \<in> set KEEP_FILES" by (simp add: KEEP_FILES_def)
  have 3: "join_str ''.'' (''lightning_app'' # filter (\<lambda>d. d \<noteq> [])
              (split_chr CHR ''/'' (dirname ''utilities/sub/__init__.py''))) = ''lightning_app.utilities.sub''"
    by code_simp
  show ?thesis unfolding entry_step_keep[OF 1 2] 3 by simp
qed

text \<open>
  C7, as stated, fails for a private file with a hyphen in its name: the test for the hyphen
  comes first and passes the file over without a warning.
\<close>

theorem meta_file_private_counterexample:
  "meta_file ''/r/pkg'' ''/r'' ''lightning.app'' example_state ''/r/pkg/_a-b.py'' = Inr example_state
   \<and> log example_state = []"
  by code_simp

text \<open>
  C7, amended. A source file whose name starts with an underscore, holds no hyphen and is
  not an entry file name leaves the files as they are and adds the warning
  \<open>unsupported file: <relative path>\<close> to the log, and the loop goes on with the
  remaining files.
\<close>

theorem meta_loop_private:
  assumes "startswith (basename py_file) ''_''"
    and "\<not> py_in ''-'' (basename py_file)"
    and "basename py_file \<notin> set entry_names"
  shows "meta_loop package_dir folder new_pkg st (py_file # py_files) =
           meta_loop package_dir folder new_pkg
             (st\<lparr>log := log st @ [''unsupported file: '' @ replace (package_dir @ ''/'') [] py_file]\<rparr>)
             py_files"
proof -
  have "stub_of package_dir new_pkg st py_file = Inr Unsupported"
    using assms by (auto simp: stub_of_def Let_def entry_names_def)
  then show ?thesis by (simp add: meta_file_def Let_def)
qed

theorem meta_loop_private_witness:
  "meta_loop ''/r/pkg'' ''/r'' ''lightning.app'' example_state [''/r/pkg/_private.py'', ''/r/pkg/_a-b.py'']
     = Inr (example_state\<lparr>log := [''unsupported file: _private.py'']\<rparr>)"
proof -
  have 1: "startswith (basename ''/r/pkg/_private.py'') ''_''"
    and 2: "\<not> py_in ''-'' (basename ''/r/pkg/_private.py'')"
    and 3: "basename ''/r/pkg/_private.py'' \<notin> set entry_names"
    by code_simp+
  have 4: "meta_loop ''/r/pkg'' ''/r'' ''lightning.app''
             (example_state\<lparr>log := log example_state @ [''unsupported file: '' @ replace (''/r/pkg'' @ ''/'') [] ''/r/pkg/_private.py'']\<rparr>)
             [''/r/pkg/_a-b.py'']
           = Inr (example_state\<lparr>log := [''unsupported file: _private.py'']\<rparr>)"
    by code_simp
  show ?thesis unfolding meta_loop_private[OF 1 2 3] by (rule 4)
qed

lemma py_in_chr: "py_in [c] s \<longleftrightarrow> c \<in> set s"
proof (induction s)
  case Nil show ?case by (simp add: py_in_def)
next
  case (Cons a s)
  then show ?case by (auto simp: py_in_def sublist_Cons_right)
qed

lemma set_replace_keeps:
  "c \<notin> set p \<Longrightarrow> p \<noteq> [] \<Longrightarrow> c \<in> set t \<Longrightarrow> c \<in> set (replace p r t)"
proof (induction p r t rule: replace.induct)
  case (1 p r) then show ?case by simp
next
  case (2 p r a cs)
  show ?case
  proof (cases "prefix p (a # cs)")
    case True
    then obtain rest where r: "a # cs = p @ rest" by (auto simp: prefix_def)
    then have d: "drop (length p) (a # cs) = rest" by (metis append_eq_conv_conj)
    have "set (a # cs) = set p \<union> set rest" using r by (metis set_append)
    then have "c \<in> set rest" using "2.prems" by blast
    then have "c \<in> set (replace p r (drop (length p) (a # cs)))"
      using "2.IH"(2) "2.prems" True d by simp
    then show ?thesis using True "2.prems" by simp
  next
    case False
    then have "c = a \<or> c \<in> set (replace p r cs)" using "2.IH"(3) "2.prems" by auto
    then show ?thesis using False "2.prems" by auto
  qed
qed

lemma set_dirname: "set (dirname p) \<subseteq> set p"
proof -
  let ?h = "rev (dropWhile (\<lambda>c. c \<noteq> CHR ''/'') (rev p))"
  have "set ?h \<subseteq> set p" using set_dropWhileD by fastforce
  moreover have "set (rev (dropWhile (\<lambda>c. c = CHR ''/'') (rev ?h))) \<subseteq> set ?h"
    using set_dropWhileD by fastforce
  ultimately show ?thesis unfolding dirname_def Let_def by auto
qed

lemma hyphen_import_path:
  assumes "py_in ''-'' (dirname local_path)"
  shows "py_in ''-'' (module_import_path pkg_name local_path)"
proof -
  have "CHR ''-'' \<in> set local_path" using assms set_dirname unfolding py_in_chr by blast
  then have "CHR ''-'' \<in> set (replace ''.py'' [] local_path)"
    using set_replace_keeps[of "CHR ''-''" "''.py''" local_path "[]"] by simp
  then have "CHR ''-'' \<in> set (replace ''/'' ''.'' (replace ''.py'' [] local_path))"
    using set_replace_keeps[of "CHR ''-''" "''/''" "replace ''.py'' [] local_path" "''.''"] by simp
  then show ?thesis unfolding py_in_chr module_import_path_def by simp
qed

lemma module_step_hyphen:
  "py_in ''-'' ip \<Longrightarrow> fst (module_step ip st ln0) = fst st"
  by (simp add: module_step_def module_rest_def Let_def)

lemma module_fold_hyphen:
  "py_in ''-'' ip \<Longrightarrow> fst (foldl (module_step ip) st lns) = fst st"
  by (induction lns arbitrary: st) (simp_all add: module_step_hyphen)

lemma module_body_hyphen: "py_in ''-'' ip \<Longrightarrow> module_body ip lns = []"
  by (simp add: module_body_def module_fold_hyphen)

text \<open>
  C10, as stated, fails for a file whose name starts with an underscore: it gets a warning
  and no stub, whatever its directory is called.
\<close>

theorem meta_file_hyphen_counterexample:
  "py_in ''-'' (dirname (replace (''/r/pkg'' @ ''/'') [] ''/r/pkg/my-dir/_x.py''))
   \<and> \<not> py_in ''-'' (basename ''/r/pkg/my-dir/_x.py'')
   \<and> basename ''/r/pkg/my-dir/_x.py'' \<notin> set entry_names
   \<and> meta_file ''/r/pkg'' ''/r'' ''lightning.app'' example_state ''/r/pkg/my-dir/_x.py''
       = Inr (example_state\<lparr>log := [''unsupported file: my-dir/_x.py'']\<rparr>)"
  by code_simp

text \<open>
  C10, amended. For a readable file that is no entry file, whose name holds no hyphen and
  starts with no underscore, and whose relative directory path holds a hyphen, the
  generator writes the empty text to the mirrored destination path and goes on to copy the
  entry files of the destination package.
\<close>

theorem meta_file_hyphen_dir:
  assumes "\<not> py_in ''-'' (basename py_file)"
    and "basename py_file \<notin> set entry_names"
    and "\<not> startswith (basename py_file) ''_''"
    and "py_in ''-'' (dirname (replace (package_dir @ ''/'') [] py_file))"
    and "read_lines (files st) py_file = Inr lines"
  shows "meta_file package_dir folder new_pkg st py_file =
           copy_entry_files folder new_pkg
             (st\<lparr>files := fs_write
                    (path_join folder [pkg_path new_pkg, replace (package_dir @ ''/'') [] py_file])
                    [] (files st)\<rparr>)"
proof -
  let ?local = "replace (package_dir @ ''/'') [] py_file"
  have "module_body (module_import_path (basename package_dir) ?local) lines = []"
    using hyphen_import_path[OF assms(4)] by (rule module_body_hyphen)
  then have "stub_of package_dir new_pkg st py_file = Inr (Stub [])"
    using assms by (simp add: stub_of_def Let_def)
  then show ?thesis by (simp add: meta_file_def Let_def written_text_def)
qed

theorem meta_file_hyphen_dir_witness:
  "meta_file ''/r/pkg'' ''/r'' ''lightning.app'' example_state ''/r/pkg/my-dir/mod.py''
     = Inr (example_state\<lparr>files := example_fs @ [(''/r/lightning/app/my-dir/mod.py'', [])]\<rparr>)"
proof -
  have 1: "\<not> py_in ''-'' (basename ''/r/pkg/my-dir/mod.py'')"
    and 2: "basename ''/r/pkg/my-dir/mod.py'' \<notin> set entry_names"
    and 3: "\<not> startswith (basename ''/r/pkg/my-dir/mod.py'') ''_''"
    and 4: "py_in ''-'' (dirname (replace (''/r/pkg'' @ ''/'') [] ''/r/pkg/my-dir/mod.py''))"
    and 5: "read_lines (files example_state) ''/r/pkg/my-dir/mod.py'' = Inr foo_lines"
    by code_simp+
  have 6: "copy_entry_files ''/r'' ''lightning.app''
             (example_state\<lparr>files := fs_write
                    (path_join ''/r'' [pkg_path ''lightning.app'', replace (''/r/pkg'' @ ''/'') [] ''/r/pkg/my-dir/mod.py''])
                    [] (files example_state)\<rparr>)
         = Inr (example_state\<lparr>files := example_fs @ [(''/r/lightning/app/my-dir/mod.py'', [])]\<rparr>)"
    by code_simp
  show ?thesis unfolding meta_file_hyphen_dir[OF 1 2 3 4 5] by (rule 6)
qed

lemma replace_keeps_tail:
  assumes bn: "CHR ''/'' \<notin> set bn"
  shows "replace (P @ ''/'') r (h @ bn) = replace (P @ ''/'') r h @ bn"
proof (induction h rule: length_induct)
  case (1 h)
  let ?Q = "P @ ''/''"
  have q: "?Q \<noteq> []" by simp
  have nosub: "\<not> sublist ?Q bn" using bn set_mono_sublist[of ?Q bn] by auto
  show ?case
  proof (cases h)
    case Nil
    then show ?thesis using replace_absent[OF q nosub] by simp
  next
    case (Cons c h')
    show ?thesis
    proof (cases "prefix ?Q (h @ bn)")
      case True
      have ph: "prefix ?Q h"
      proof -
        from True consider "prefix ?Q h" | u where "?Q = h @ u" "prefix u bn" "u \<noteq> []"
          unfolding prefix_append by (cases "prefix ?Q h") auto
        then show ?thesis
        proof cases
          case 1 then show ?thesis .
        next
          case 2
          then have "last u = CHR ''/''" by (metis last_appendR last_snoc)
          then have "CHR ''/'' \<in> set u" using 2(3) by (metis last_in_set)
          then have "CHR ''/'' \<in> set bn" using 2(2) by (auto simp: prefix_def)
          then show ?thesis using bn by simp
        qed
      qed
      then obtain rest where r: "h = ?Q @ rest" by (auto simp: prefix_def)
      have d1: "drop (length ?Q) (h @ bn) = rest @ bn" using r by simp
      have d2: "drop (length ?Q) h = rest" using r by simp
      have lr: "length rest < length h" using r by simp
      have "replace ?Q r (h @ bn) = r @ replace ?Q r (rest @ bn)"
        using True Cons d1 by simp
      also have "\<dots> = r @ replace ?Q r rest @ bn" using 1 lr by simp
      also have "\<dots> = replace ?Q r h @ bn" using ph Cons d2 by simp
      finally show ?thesis .
    next
      case False
      then have nh: "\<not> prefix ?Q h" by (meson prefix_prefix)
      have "replace ?Q r (h @ bn) = c # replace ?Q r (h' @ bn)" using False Cons by simp
      also have "\<dots> = c # replace ?Q r h' @ bn" using 1 Cons by simp
      also have "\<dots> = replace ?Q r h @ bn" using nh Cons by simp
      finally show ?thesis .
    qed
  qed
qed

lemma basename_split: "p = rev (dropWhile (\<lambda>c. c \<noteq> CHR ''/'') (rev p)) @ basename p"
  unfolding basename_def by (metis rev_append rev_rev_ident takeWhile_dropWhile_id)

lemma basename_no_sep: "CHR ''/'' \<notin> set (basename p)"
  unfolding basename_def using set_takeWhileD by fastforce

lemma basename_in_local:
  "set (basename py_file) \<subseteq> set (replace (package_dir @ ''/'') r py_file)"
proof -
  let ?h = "rev (dropWhile (\<lambda>c. c \<noteq> CHR ''/'') (rev py_file))"
  have "replace (package_dir @ ''/'') r (?h @ basename py_file)
      = replace (package_dir @ ''/'') r ?h @ basename py_file"
    by (rule replace_keeps_tail[OF basename_no_sep])
  then have "replace (package_dir @ ''/'') r py_file
      = replace (package_dir @ ''/'') r ?h @ basename py_file"
    using basename_split[of py_file] by simp
  then show ?thesis by (metis Un_upper2 set_append)
qed

lemma hyphen_name_import_path:
  assumes "py_in ''-'' (basename py_file)"
  shows "py_in ''-'' (module_import_path pkg_name (replace (package_dir @ ''/'') [] py_file))"
proof -
  let ?local = "replace (package_dir @ ''/'') [] py_file"
  have "CHR ''-'' \<in> set ?local" using assms basename_in_local unfolding py_in_chr by blast
  then have "CHR ''-'' \<in> set (replace ''.py'' [] ?local)"
    using set_replace_keeps[of "CHR ''-''" "''.py''" ?local "[]"] by simp
  then have "CHR ''-'' \<in> set (replace ''/'' ''.'' (replace ''.py'' [] ?local))"
    using set_replace_keeps[of "CHR ''-''" "''/''" "replace ''.py'' [] ?local" "''.''"] by simp
  then show ?thesis unfolding py_in_chr module_import_path_def by simp
qed

text \<open>
  C5, as stated, fails for a module file in a directory with a hyphen in its name, where
  every line is dropped, and for a module file whose name starts with an underscore, which
  gets no stub at all.
\<close>

theorem stub_def_foo_counterexample:
  "read_lines (files example_state) ''/r/pkg/my-dir/mod.py'' = Inr foo_lines
   \<and> clean_line (foo_lines ! 1) = ''def foo():''
   \<and> stub_of ''/r/pkg'' ''lightning.app'' example_state ''/r/pkg/my-dir/mod.py'' = Inr (Stub [])
   \<and> read_lines (files example_state) ''/r/pkg/_private.py'' = Inr foo_lines
   \<and> \<not> py_in ''-'' (module_import_path (basename ''/r/pkg'')
                       (replace (''/r/pkg'' @ ''/'') [] ''/r/pkg/_private.py''))
   \<and> stub_of ''/r/pkg'' ''lightning.app'' example_state ''/r/pkg/_private.py'' = Inr Unsupported"
  by code_simp

text \<open>
  C5, amended. For a readable source file that is no entry file, whose name starts with no
  underscore and whose dotted import path holds no hyphen, and one of whose lines reads
  \<open>def foo():\<close> once its comment and trailing whitespace are removed, the generator
  writes a stub that contains the import line for \<open>foo\<close> and contains no line of the
  file that starts with whitespace, neither as it stands nor without its comment and
  trailing whitespace.
\<close>

theorem stub_def_foo:
  assumes "basename py_file \<notin> set entry_names"
    and "\<not> startswith (basename py_file) ''_''"
    and "\<not> py_in ''-'' (module_import_path (basename package_dir)
                          (replace (package_dir @ ''/'') [] py_file))"
    and "read_lines (files st) py_file = Inr lines"
    and "ln0 \<in> set lines" and "clean_line ln0 = ''def foo():''"
  shows "stub_of package_dir new_pkg st py_file
           = Inr (Stub (module_body (module_import_path (basename package_dir)
                          (replace (package_dir @ ''/'') [] py_file)) lines))
       \<and> meta_file package_dir folder new_pkg st py_file
           = copy_entry_files folder new_pkg
               (st\<lparr>files := fs_write
                  (path_join folder [pkg_path new_pkg, replace (package_dir @ ''/'') [] py_file])
                  (written_text (module_body (module_import_path (basename package_dir)
                          (replace (package_dir @ ''/'') [] py_file)) lines))
                  (files st)\<rparr>)
       \<and> import_line (module_import_path (basename package_dir)
                          (replace (package_dir @ ''/'') [] py_file)) ''foo''
           \<in> set (module_body (module_import_path (basename package_dir)
                          (replace (package_dir @ ''/'') [] py_file)) lines)
       \<and> (\<forall>l \<in> set lines. l \<noteq> [] \<and> isspace (hd l) \<longrightarrow>
             l \<notin> set (module_body (module_import_path (basename package_dir)
                          (replace (package_dir @ ''/'') [] py_file)) lines)
             \<and> clean_line l \<notin> set (module_body (module_import_path (basename package_dir)
                          (replace (package_dir @ ''/'') [] py_file)) lines))"
proof -
  let ?ip = "module_import_path (basename package_dir) (replace (package_dir @ ''/'') [] py_file)"
  have nh: "\<not> py_in ''-'' (basename py_file)"
    using assms(3) hyphen_name_import_path by blast
  have s: "stub_of package_dir new_pkg st py_file = Inr (Stub (module_body ?ip lines))"
    using assms(1,2,4) nh by (simp add: stub_of_def Let_def)
  then have m: "meta_file package_dir folder new_pkg st py_file
           = copy_entry_files folder new_pkg
               (st\<lparr>files := fs_write
                  (path_join folder [pkg_path new_pkg, replace (package_dir @ ''/'') [] py_file])
                  (written_text (module_body ?ip lines)) (files st)\<rparr>)"
    by (simp add: meta_file_def Let_def)
  show ?thesis using s m module_body_def_foo_lines[OF assms(3,5,6)] by blast
qed

theorem stub_def_foo_witness:
  "stub_of ''/r/pkg'' ''lightning.app'' example_state ''/r/pkg/mod.py''
     = Inr (Stub (module_body ''pkg.mod'' foo_lines))
   \<and> ''from pkg.mod import foo  # noqa: F401'' \<in> set (module_body ''pkg.mod'' foo_lines)
   \<and> (''    return 1'' @ [CHR 0x0A]) \<notin> set (module_body ''pkg.mod'' foo_lines)"
proof -
  have ip: "module_import_path (basename ''/r/pkg'') (replace (''/r/pkg'' @ ''/'') [] ''/r/pkg/mod.py'')
          = ''pkg.mod''"
    by code_simp
  have 1: "basename ''/r/pkg/mod.py'' \<notin> set entry_names"
    and 2: "\<not> startswith (basename ''/r/pkg/mod.py'') ''_''"
    and 3: "\<not> py_in ''-'' (module_import_path (basename ''/r/pkg'')
                          (replace (''/r/pkg'' @ ''/'') [] ''/r/pkg/mod.py''))"
    and 4: "read_lines (files example_state) ''/r/pkg/mod.py'' = Inr foo_lines"
    and 6: "clean_line (''def foo():  # a function'' @ [CHR 0x0A]) = ''def foo():''"
    and 8: "import_line ''pkg.mod'' ''foo'' = ''from pkg.mod import foo  # noqa: F401''"
    by code_simp+
  have 5: "(''def foo():  # a function'' @ [CHR 0x0A]) \<in> set foo_lines"
    and 7: "(''    return 1'' @ [CHR 0x0A]) \<in> set foo_lines"
    by (simp_all add: foo_lines_def)
  have 9: "(''    return 1'' @ [CHR 0x0A]) \<noteq> [] \<and> isspace (hd (''    return 1'' @ [CHR 0x0A]))"
    by (simp add: isspace_def)
  show ?thesis
    using stub_def_foo[OF 1 2 3 4 5 6, of "''lightning.app''" "''/r''"] 7 9
    unfolding ip 8 by blast
qed

end
